theory Spec2Isabelle
  imports Main "HOL-Library.Sublist" "HOL-Library.AList" "HOL-Library.Multiset"
begin

section \<open>JavaScript values, strings and built-ins\<close>

text \<open>
  The meeting-records viewer reads CSV rows (objects from header to cell text), turns each
  into a meeting record (\<open>normalizeRecord\<close>), groups the records by project
  (\<open>groupByProject\<close>) and filters and sorts them (\<open>filteredRecords\<close>,
  \<open>sortedRecords\<close>).

  A cell of a row is a string, and reading a property that the row does not have gives
  \<open>undefined\<close>: a value is \<open>Undefined\<close> or \<open>Str s\<close>. A string is a list of
  code units; the embedding covers the code units below 256 (Isabelle's \<open>char\<close>),
  and the built-in functions on strings are written out for them.
\<close>

datatype jsval = Undefined | Str string

text \<open>Truthiness: \<open>undefined\<close> and the empty string are falsy.\<close>

definition truthy :: "jsval \<Rightarrow> bool" where
  "truthy v = (case v of Undefined \<Rightarrow> False | Str s \<Rightarrow> s \<noteq> [])"

text \<open>The operator \<open>a || b\<close>: \<open>a\<close> when it is truthy, else \<open>b\<close>.\<close>

definition js_or :: "jsval \<Rightarrow> jsval \<Rightarrow> jsval" where
  "js_or a b = (if truthy a then a else b)"

text \<open>\<open>String(v)\<close>, which is also how a value is turned into a property key.\<close>

definition js_String :: "jsval \<Rightarrow> string" where
  "js_String v = (case v of Undefined \<Rightarrow> ''undefined'' | Str s \<Rightarrow> s)"

text \<open>
  White space as \<open>trim\<close> and the regular expression class \<open>\s\<close> read it: among the
  code units below 256 these are TAB, LF, VT, FF, CR, SPACE and NBSP.
\<close>

definition is_space :: "char \<Rightarrow> bool" where
  "is_space c = (c \<in> set [CHR 0x09, CHR 0x0A, CHR 0x0B, CHR 0x0C, CHR 0x0D, CHR 0x20, CHR 0xA0])"

definition trim :: "string \<Rightarrow> string" where
  "trim s = rev (dropWhile is_space (rev (dropWhile is_space s)))"

text \<open>
  \<open>toLowerCase\<close> on code units below 256: the letters A to Z, and the capital letters
  of the Latin-1 block (0xC0 to 0xDE without the multiplication sign 0xD7).
\<close>

definition upper_letters :: "char list" where
  "upper_letters = ''ABCDEFGHIJKLMNOPQRSTUVWXYZ'' @
     [CHR 0xC0, CHR 0xC1, CHR 0xC2, CHR 0xC3, CHR 0xC4, CHR 0xC5, CHR 0xC6, CHR 0xC7,
      CHR 0xC8, CHR 0xC9, CHR 0xCA, CHR 0xCB, CHR 0xCC, CHR 0xCD, CHR 0xCE, CHR 0xCF,
      CHR 0xD0, CHR 0xD1, CHR 0xD2, CHR 0xD3, CHR 0xD4, CHR 0xD5, CHR 0xD6,
      CHR 0xD8, CHR 0xD9, CHR 0xDA, CHR 0xDB, CHR 0xDC, CHR 0xDD, CHR 0xDE]"

definition lower_letters :: "char list" where
  "lower_letters = ''abcdefghijklmnopqrstuvwxyz'' @
     [CHR 0xE0, CHR 0xE1, CHR 0xE2, CHR 0xE3, CHR 0xE4, CHR 0xE5, CHR 0xE6, CHR 0xE7,
      CHR 0xE8, CHR 0xE9, CHR 0xEA, CHR 0xEB, CHR 0xEC, CHR 0xED, CHR 0xEE, CHR 0xEF,
      CHR 0xF0, CHR 0xF1, CHR 0xF2, CHR 0xF3, CHR 0xF4, CHR 0xF5, CHR 0xF6,
      CHR 0xF8, CHR 0xF9, CHR 0xFA, CHR 0xFB, CHR 0xFC, CHR 0xFD, CHR 0xFE]"

definition lower_char :: "char \<Rightarrow> char" where
  "lower_char c = (case map_of (zip upper_letters lower_letters) c of None \<Rightarrow> c | Some l \<Rightarrow> l)"

definition toLowerCase :: "string \<Rightarrow> string" where
  "toLowerCase s = map lower_char s"

text \<open>\<open>xs.join(sep)\<close> on an array of strings.\<close>

fun join :: "string \<Rightarrow> string list \<Rightarrow> string" where
  "join sep [] = []"
| "join sep [x] = x"
| "join sep (x # y # ys) = x @ sep @ join sep (y # ys)"

text \<open>An element of an array that is \<open>undefined\<close> is joined as the empty string.\<close>

definition join_elem :: "jsval \<Rightarrow> string" where
  "join_elem v = (case v of Undefined \<Rightarrow> [] | Str s \<Rightarrow> s)"

text \<open>\<open>String(n)\<close> for an integer, and \<open>padStart\<close>.\<close>

definition digit_char :: "nat \<Rightarrow> char" where
  "digit_char d = ''0123456789'' ! d"

fun show_nat :: "nat \<Rightarrow> string" where
  "show_nat n = (if n < 10 then [digit_char n] else show_nat (n div 10) @ [digit_char (n mod 10)])"

definition show_int :: "int \<Rightarrow> string" where
  "show_int i = (if i < 0 then CHR ''-'' # show_nat (nat (- i)) else show_nat (nat i))"

definition padStart :: "nat \<Rightarrow> char \<Rightarrow> string \<Rightarrow> string" where
  "padStart n c s = replicate (n - length s) c @ s"

subsection \<open>Regular expressions\<close>

text \<open>
  The fragment of regular expressions the program uses, under the flag \<open>i\<close>: a literal
  word, \<open>\s*\<close>, an optional part \<open>r?\<close>, sequence and alternative. \<open>rx_rests r s\<close>
  lists what is left of \<open>s\<close> after each way \<open>r\<close> matches a prefix of it, in the
  order a backtracking matcher tries them; \<open>regex_test r s\<close> is \<open>r.test(s)\<close>: a
  match starting anywhere in \<open>s\<close>.
\<close>

datatype rx = Lit string | Spaces | Opt rx | Seq rx rx | Alt rx rx

text \<open>
  Under the flag \<open>i\<close> two code units match when their canonical (upper case) forms
  are equal. The patterns here hold ASCII only, and no code unit beyond ASCII has an ASCII
  canonical form.
\<close>

definition canonicalize :: "char \<Rightarrow> char" where
  "canonicalize c =
     (case map_of (zip ''abcdefghijklmnopqrstuvwxyz'' ''ABCDEFGHIJKLMNOPQRSTUVWXYZ'') c of
        None \<Rightarrow> c | Some u \<Rightarrow> u)"

fun match_lit :: "string \<Rightarrow> string \<Rightarrow> string option" where
  "match_lit [] s = Some s"
| "match_lit (p # ps) [] = None"
| "match_lit (p # ps) (c # cs) =
     (if canonicalize c = canonicalize p then match_lit ps cs else None)"

fun spaces_rests :: "string \<Rightarrow> string list" where
  "spaces_rests [] = [[]]"
| "spaces_rests (c # cs) = (if is_space c then spaces_rests cs @ [c # cs] else [c # cs])"

fun rx_rests :: "rx \<Rightarrow> string \<Rightarrow> string list" where
  "rx_rests (Lit p) s = (case match_lit p s of None \<Rightarrow> [] | Some r \<Rightarrow> [r])"
| "rx_rests Spaces s = spaces_rests s"
| "rx_rests (Opt r) s = rx_rests r s @ [s]"
| "rx_rests (Seq a b) s = concat (map (rx_rests b) (rx_rests a s))"
| "rx_rests (Alt a b) s = rx_rests a s @ rx_rests b s"

fun regex_test :: "rx \<Rightarrow> string \<Rightarrow> bool" where
  "regex_test r [] = (rx_rests r [] \<noteq> [])"
| "regex_test r (c # cs) = (rx_rests r (c # cs) \<noteq> [] \<or> regex_test r cs)"

text \<open>The pattern \<^verbatim>\<open>/action\s*(points?|items?|to\s*-?\s*dos?|todos?)/i\<close>.\<close>

definition action_regex :: rx where
  "action_regex =
     Seq (Lit ''action'') (Seq Spaces
       (Alt (Seq (Lit ''point'') (Opt (Lit ''s'')))
       (Alt (Seq (Lit ''item'') (Opt (Lit ''s'')))
       (Alt (Seq (Lit ''to'') (Seq Spaces (Seq (Opt (Lit ''-'')) (Seq Spaces
               (Seq (Lit ''do'') (Opt (Lit ''s'')))))))
            (Seq (Lit ''todo'') (Opt (Lit ''s'')))))))"

subsection \<open>Dates\<close>

text \<open>
  A valid \<open>Date\<close>: its time value (\<open>getTime()\<close>, milliseconds since the epoch) and
  its local calendar fields. How \<open>new Date(text)\<close> reads a text is left to the
  JavaScript engine, so the constructor is a parameter \<open>newDate\<close> of the functions that
  call it; \<open>None\<close> stands for an invalid date (one whose \<open>getTime()\<close> is
  \<open>NaN\<close>).
\<close>

record jsdate =
  getTime :: int
  getFullYear :: int
  getMonth :: nat
  getDate :: nat

section \<open>The normalizer\<close>

text \<open>
  A raw row: the own properties of the row object, in the order \<open>Object.keys\<close> lists
  them. \<open>COLUMN_MAP\<close> is the configured header of each field.
\<close>

type_synonym raw_row = "(string \<times> string) list"

definition COLUMN_MAP :: "(string \<times> string) list" where
  "COLUMN_MAP =
     [(''timestamp'', ''Timestamp''),
      (''date'', ''Date of Meeting''),
      (''student'', ''Student Name (be consistent)''),
      (''project'', ''Discussed Project Title  (be consistent)''),
      (''topic'', ''Meeting Topic''),
      (''subtopics'', ''Subtopics / Agenda Items''),
      (''my_inputs'', ''Supervisor Inputs & Suggestions''),
      (''link'', ''Link to Additional Materials (Optional)''),
      (''action_points'', ''Action Points'')]"

text \<open>\<open>COLUMN_MAP.name\<close>: \<open>undefined\<close> for a name the map does not configure.\<close>

definition column :: "string \<Rightarrow> jsval" where
  "column name = (case map_of COLUMN_MAP name of None \<Rightarrow> Undefined | Some h \<Rightarrow> Str h)"

text \<open>\<open>raw[key]\<close>: the key is turned into a string first.\<close>

definition prop_get :: "raw_row \<Rightarrow> jsval \<Rightarrow> jsval" where
  "prop_get raw key = (case map_of raw (js_String key) of None \<Rightarrow> Undefined | Some v \<Rightarrow> Str v)"

definition hasOwnProperty :: "raw_row \<Rightarrow> jsval \<Rightarrow> bool" where
  "hasOwnProperty raw key = (map_of raw (js_String key) \<noteq> None)"

definition Object_keys :: "raw_row \<Rightarrow> string list" where
  "Object_keys raw = map fst raw"

text \<open>The loop of \<open>pickColumn\<close> over the keys: the first key the pattern matches.\<close>

fun scan_keys :: "raw_row \<Rightarrow> rx \<Rightarrow> string list \<Rightarrow> jsval" where
  "scan_keys raw regex [] = Undefined"
| "scan_keys raw regex (k # ks) =
     (if regex_test regex k then prop_get raw (Str k) else scan_keys raw regex ks)"

definition pickColumn :: "raw_row \<Rightarrow> jsval \<Rightarrow> rx \<Rightarrow> jsval" where
  "pickColumn raw preferredName regex =
     (if truthy preferredName \<and> hasOwnProperty raw preferredName
      then prop_get raw preferredName
      else scan_keys raw regex (Object_keys raw))"

definition parseDateLoose :: "(string \<Rightarrow> jsdate option) \<Rightarrow> jsval \<Rightarrow> jsdate option" where
  "parseDateLoose newDate v =
     (if \<not> truthy v then None
      else (case newDate (js_String v) of None \<Rightarrow> None | Some d \<Rightarrow> Some d))"

definition toYMD :: "jsdate option \<Rightarrow> string" where
  "toYMD d' =
     (case d' of
        None \<Rightarrow> []
      | Some d \<Rightarrow>
          (let y = getFullYear d;
               m = padStart 2 CHR ''0'' (show_nat (getMonth d + 1));
               day = padStart 2 CHR ''0'' (show_nat (getDate d))
           in show_int y @ ''-'' @ m @ ''-'' @ day))"

text \<open>
  \<open>text.split(/[;\n]/g)\<close>: the pieces between the delimiters, empty ones too. A
  character that is no delimiter goes in front of the first piece of the rest (there
  always is one).
\<close>

definition is_delim :: "char \<Rightarrow> bool" where
  "is_delim c = (c = CHR '';'' \<or> c = CHR 0x0A)"

fun split_on :: "(char \<Rightarrow> bool) \<Rightarrow> string \<Rightarrow> string list" where
  "split_on p [] = [[]]"
| "split_on p (c # cs) =
     (if p c then [] # split_on p cs
      else (case split_on p cs of [] \<Rightarrow> [[c]] | w # ws \<Rightarrow> (c # w) # ws))"

definition splitList :: "jsval \<Rightarrow> string list" where
  "splitList text =
     (if \<not> truthy text then []
      else filter (\<lambda>s. s \<noteq> []) (map trim (split_on is_delim (js_String text))))"

record meeting =
  meeting_id :: jsval
  date :: "jsdate option"
  date_label :: string
  student :: jsval
  project :: jsval
  topic :: jsval
  subtopics :: "string list"
  my_inputs :: jsval
  link :: jsval
  action_items :: "string list"
  raw_ :: raw_row

definition normalizeRecord :: "(string \<Rightarrow> jsdate option) \<Rightarrow> raw_row \<Rightarrow> meeting" where
  "normalizeRecord newDate raw =
     (let dateRawPrimary = prop_get raw (column ''date'');
          dateRawFallback = prop_get raw (column ''timestamp'');
          dateRaw = js_or dateRawPrimary dateRawFallback;
          date = parseDateLoose newDate dateRaw;
          actionRaw = js_or (pickColumn raw (column ''action_points'') action_regex) (Str []);
          action_items = splitList actionRaw
      in \<lparr> meeting_id = js_or (prop_get raw (column ''meeting_id'')) (Str []),
           date = date,
           date_label = (if date \<noteq> None then toYMD date else js_String (js_or dateRaw (Str []))),
           student = js_or (prop_get raw (column ''student'')) (Str []),
           project = js_or (prop_get raw (column ''project'')) (Str ''Unspecified Project''),
           topic = js_or (prop_get raw (column ''topic'')) (Str ''(No topic)''),
           subtopics = splitList (js_or (prop_get raw (column ''subtopics'')) (Str [])),
           my_inputs = js_or (prop_get raw (column ''my_inputs'')) (Str ''(No inputs)''),
           link = js_or (prop_get raw (column ''link'')) (Str []),
           action_items = action_items,
           raw_ = raw \<rparr>)"


section \<open>Grouping and sorting\<close>

text \<open>
  \<open>arr.sort(cmp)\<close> is a stable sort: with a comparator that orders the elements
  consistently, as \<open>tb - ta\<close> does, its result is the one of inserting the
  elements from the right, each before the first element it does not come after.
\<close>

fun insert_sorted :: "('a \<Rightarrow> 'a \<Rightarrow> int) \<Rightarrow> 'a \<Rightarrow> 'a list \<Rightarrow> 'a list" where
  "insert_sorted cmp x [] = [x]"
| "insert_sorted cmp x (y # ys) =
     (if cmp x y \<le> 0 then x # y # ys else y # insert_sorted cmp x ys)"

definition js_sort :: "('a \<Rightarrow> 'a \<Rightarrow> int) \<Rightarrow> 'a list \<Rightarrow> 'a list" where
  "js_sort cmp xs = foldr (insert_sorted cmp) xs []"

text \<open>\<open>a.date ? a.date.getTime() : 0\<close>, and the comparator of both sorts.\<close>

definition timestamp :: "meeting \<Rightarrow> int" where
  "timestamp a = (case date a of None \<Rightarrow> 0 | Some d \<Rightarrow> getTime d)"

definition byDateDesc :: "meeting \<Rightarrow> meeting \<Rightarrow> int" where
  "byDateDesc a b = (let ta = timestamp a; tb = timestamp b in tb - ta)"

text \<open>
  A \<open>Map\<close> keeps its entries in the order their keys were first set: an association
  list with distinct keys. \<open>map.set(k, v)\<close> replaces the value of a key in place or
  appends a new entry.
\<close>

type_synonym ('k, 'v) jsmap = "('k \<times> 'v) list"

definition map_has :: "('k, 'v) jsmap \<Rightarrow> 'k \<Rightarrow> bool" where
  "map_has m k = (map_of m k \<noteq> None)"

definition map_set :: "('k, 'v) jsmap \<Rightarrow> 'k \<Rightarrow> 'v \<Rightarrow> ('k, 'v) jsmap" where
  "map_set m k v = AList.update k v m"

text \<open>
  The body of the \<open>forEach\<close>: the key, a new empty array for a new key, and the push
  onto the key's array (which the line before has made sure is there).
\<close>

definition group_step :: "(jsval, meeting list) jsmap \<Rightarrow> meeting \<Rightarrow> (jsval, meeting list) jsmap" where
  "group_step m r =
     (let key = js_or (project r) (Str ''Unspecified Project'');
          m1 = (if \<not> map_has m key then map_set m key [] else m)
      in (case map_of m1 key of
            None \<Rightarrow> m1
          | Some arr \<Rightarrow> map_set m1 key (arr @ [r])))"

definition groupByProject :: "meeting list \<Rightarrow> (jsval, meeting list) jsmap" where
  "groupByProject records =
     (let m = foldl group_step [] records
      in map (\<lambda>(k, arr). (k, js_sort byDateDesc arr)) m)"

section \<open>Filtering\<close>

record filters =
  projectFilter :: string
  studentFilter :: string
  dateFrom :: string
  dateTo :: string
  q :: string

text \<open>
  \<open>dateFrom ? new Date(dateFrom) : null\<close>: no bound for the empty text, else the
  date object, which may be an invalid date.
\<close>

definition bound_of :: "(string \<Rightarrow> jsdate option) \<Rightarrow> string \<Rightarrow> jsdate option option" where
  "bound_of newDate s = (if s \<noteq> [] then Some (newDate s) else None)"

text \<open>
  \<open>df && r.date && r.date < df\<close> and \<open>dt && r.date && r.date > dt\<close>: two date
  objects compare by their time values, and no comparison with an invalid date holds.
\<close>

definition before_bound :: "jsdate option option \<Rightarrow> jsdate option \<Rightarrow> bool" where
  "before_bound df d =
     (case df of None \<Rightarrow> False
      | Some b \<Rightarrow> (case d of None \<Rightarrow> False
          | Some x \<Rightarrow> (case b of None \<Rightarrow> False | Some y \<Rightarrow> getTime x < getTime y)))"

definition after_bound :: "jsdate option option \<Rightarrow> jsdate option \<Rightarrow> bool" where
  "after_bound dt d =
     (case dt of None \<Rightarrow> False
      | Some b \<Rightarrow> (case d of None \<Rightarrow> False
          | Some x \<Rightarrow> (case b of None \<Rightarrow> False | Some y \<Rightarrow> getTime x > getTime y)))"

text \<open>The text a query is searched in.\<close>

definition hay :: "meeting \<Rightarrow> string" where
  "hay r =
     toLowerCase (join '' \<newline> ''
       [join_elem (student r), join_elem (project r), join_elem (topic r),
        join '' '' (subtopics r), join_elem (my_inputs r)])"

text \<open>The callback of \<open>records.filter\<close>.\<close>

definition keep :: "(string \<Rightarrow> jsdate option) \<Rightarrow> filters \<Rightarrow> meeting \<Rightarrow> bool" where
  "keep newDate f r =
     (let df = bound_of newDate (dateFrom f);
          dt = bound_of newDate (dateTo f);
          ql = toLowerCase (trim (q f))
      in if projectFilter f \<noteq> ''ALL'' \<and> project r \<noteq> Str (projectFilter f) then False
         else if studentFilter f \<noteq> ''ALL'' \<and> student r \<noteq> Str (studentFilter f) then False
         else if before_bound df (date r) then False
         else if after_bound dt (date r) then False
         else if ql \<noteq> [] \<and> \<not> sublist ql (hay r) then False
         else True)"

definition filteredRecords ::
  "(string \<Rightarrow> jsdate option) \<Rightarrow> filters \<Rightarrow> meeting list \<Rightarrow> meeting list" where
  "filteredRecords newDate f records = filter (keep newDate f) records"

text \<open>\<open>[...filteredRecords].sort(...)\<close>: a sorted copy.\<close>

definition sortedRecords :: "meeting list \<Rightarrow> meeting list" where
  "sortedRecords filtered = js_sort byDateDesc filtered"

section \<open>Grouping and sorting on the heap\<close>

text \<open>
  \<open>arr.push\<close> and \<open>arr.sort\<close> change an array in place, and an array holds
  references to the record objects. To see what the grouping and the sort leave alone,
  the same code is read over a heap: the record objects (a reference is an index into
  \<open>objects\<close>) and the arrays of references (an array's address is its index into
  \<open>arrays\<close>; a new array is put at the end). The code writes to no field of a
  record object, so no operation changes \<open>objects\<close>.
\<close>

record heap =
  objects :: "meeting list"
  arrays :: "nat list list"

definition deref :: "heap \<Rightarrow> nat \<Rightarrow> meeting" where
  "deref h x = objects h ! x"

text \<open>\<open>[]\<close>: a new empty array.\<close>

definition new_array :: "heap \<Rightarrow> heap \<times> nat" where
  "new_array h = (h\<lparr>arrays := arrays h @ [[]]\<rparr>, length (arrays h))"

text \<open>\<open>arr.push(r)\<close>.\<close>

definition array_push :: "heap \<Rightarrow> nat \<Rightarrow> nat \<Rightarrow> heap" where
  "array_push h a r = h\<lparr>arrays := (arrays h)[a := arrays h ! a @ [r]]\<rparr>"

text \<open>\<open>arr.sort((a, b) => tb - ta)\<close>: the array at the address is sorted in place.\<close>

definition array_sort :: "heap \<Rightarrow> nat \<Rightarrow> heap" where
  "array_sort h a =
     h\<lparr>arrays := (arrays h)
        [a := js_sort (\<lambda>x y. byDateDesc (deref h x) (deref h y)) (arrays h ! a)]\<rparr>"

text \<open>\<open>[...arr]\<close>: a new array with the elements of \<open>arr\<close>.\<close>

definition array_copy :: "heap \<Rightarrow> nat \<Rightarrow> heap \<times> nat" where
  "array_copy h a = (h\<lparr>arrays := arrays h @ [arrays h ! a]\<rparr>, length (arrays h))"

text \<open>The body of the \<open>forEach\<close>; the map holds the addresses of the groups' arrays.\<close>

definition group_step_heap ::
  "heap \<times> (jsval, nat) jsmap \<Rightarrow> nat \<Rightarrow> heap \<times> (jsval, nat) jsmap" where
  "group_step_heap s r =
     (let h = fst s; m = snd s;
          key = js_or (project (deref h r)) (Str ''Unspecified Project'');
          s1 = (if \<not> map_has m key
                then (let (h', a) = new_array h in (h', map_set m key a))
                else (h, m))
      in (case map_of (snd s1) key of
            None \<Rightarrow> s1
          | Some a \<Rightarrow> (array_push (fst s1) a r, snd s1)))"

text \<open>
  \<open>records.forEach\<close>: the length is read once, and the element at each index is read
  from the array as it is when its turn comes.
\<close>

fun group_loop ::
  "heap \<times> (jsval, nat) jsmap \<Rightarrow> nat \<Rightarrow> nat \<Rightarrow> nat \<Rightarrow> heap \<times> (jsval, nat) jsmap" where
  "group_loop s records i 0 = s"
| "group_loop s records i (Suc n) =
     group_loop (group_step_heap s (arrays (fst s) ! records ! i)) records (Suc i) n"

text \<open>\<open>for (const [k, arr] of map) arr.sort(...)\<close>.\<close>

definition sort_groups :: "(jsval, nat) jsmap \<Rightarrow> heap \<Rightarrow> heap" where
  "sort_groups m h = fold (\<lambda>(k, arr) h'. array_sort h' arr) m h"

definition groupByProject_heap :: "heap \<Rightarrow> nat \<Rightarrow> heap \<times> (jsval, nat) jsmap" where
  "groupByProject_heap h records =
     (let s = group_loop (h, []) records 0 (length (arrays h ! records))
      in (sort_groups (snd s) (fst s), snd s))"

definition sortedRecords_heap :: "heap \<Rightarrow> nat \<Rightarrow> heap \<times> nat" where
  "sortedRecords_heap h filtered =
     (let (h1, a) = array_copy h filtered in (array_sort h1 a, a))"

section \<open>Notions used to state the properties\<close>

text \<open>
  \<open>unsplit ws ds\<close> puts the pieces \<open>ws\<close> together again, with the delimiters
  \<open>ds\<close> between them in their order.
\<close>

fun unsplit :: "string list \<Rightarrow> string \<Rightarrow> string" where
  "unsplit [] ds = []"
| "unsplit [w] ds = w"
| "unsplit (w # ws) [] = w"
| "unsplit (w # v # ws) (d # ds) = w @ d # unsplit (v # ws) ds"

text \<open>
  The words a pattern stands for: \<open>regex_test\<close> must find one of them somewhere in
  the text.
\<close>

fun rx_lang :: "rx \<Rightarrow> string set" where
  "rx_lang (Lit p) = {w. map canonicalize w = map canonicalize p}"
| "rx_lang Spaces = {w. \<forall>c \<in> set w. is_space c}"
| "rx_lang (Opt r) = insert [] (rx_lang r)"
| "rx_lang (Seq a b) = {u @ v | u v. u \<in> rx_lang a \<and> v \<in> rx_lang b}"
| "rx_lang (Alt a b) = rx_lang a \<union> rx_lang b"

text \<open>
  The key a record is grouped under: \<open>r.project || "Unspecified Project"\<close>.
\<close>

definition group_key :: "meeting \<Rightarrow> jsval" where
  "group_key r = js_or (project r) (Str ''Unspecified Project'')"

text \<open>
  The text a query is searched in, before it is put in lower case: student, project, topic,
  the subtopics joined by a space, and the inputs, joined by space, newline, space.
\<close>

definition search_text :: "meeting \<Rightarrow> string" where
  "search_text r =
     join '' \<newline> ''
       [join_elem (student r), join_elem (project r), join_elem (topic r),
        join '' '' (subtopics r), join_elem (my_inputs r)]"

text \<open>
  The conjunction of the filters with the query taken as it is typed
  (\<open>matches_as_specified\<close>), and with the query trimmed first
  (\<open>matches_trimmed\<close>). A bound is active when its text is not empty; it drops a
  record whose date is present and strictly before (after) the bound's date.
\<close>

definition matches_as_specified :: "(string \<Rightarrow> jsdate option) \<Rightarrow> filters \<Rightarrow> meeting \<Rightarrow> bool" where
  "matches_as_specified newDate f r \<longleftrightarrow>
     (projectFilter f = ''ALL'' \<or> project r = Str (projectFilter f))
     \<and> (studentFilter f = ''ALL'' \<or> student r = Str (studentFilter f))
     \<and> \<not> (dateFrom f \<noteq> []
            \<and> (\<exists>d b. date r = Some d \<and> newDate (dateFrom f) = Some b \<and> getTime d < getTime b))
     \<and> \<not> (dateTo f \<noteq> []
            \<and> (\<exists>d b. date r = Some d \<and> newDate (dateTo f) = Some b \<and> getTime b < getTime d))
     \<and> (q f = [] \<or> sublist (toLowerCase (q f)) (toLowerCase (search_text r)))"

definition matches_trimmed :: "(string \<Rightarrow> jsdate option) \<Rightarrow> filters \<Rightarrow> meeting \<Rightarrow> bool" where
  "matches_trimmed newDate f r \<longleftrightarrow>
     (projectFilter f = ''ALL'' \<or> project r = Str (projectFilter f))
     \<and> (studentFilter f = ''ALL'' \<or> student r = Str (studentFilter f))
     \<and> \<not> (dateFrom f \<noteq> []
            \<and> (\<exists>d b. date r = Some d \<and> newDate (dateFrom f) = Some b \<and> getTime d < getTime b))
     \<and> \<not> (dateTo f \<noteq> []
            \<and> (\<exists>d b. date r = Some d \<and> newDate (dateTo f) = Some b \<and> getTime b < getTime d))
     \<and> (trim (q f) = [] \<or> sublist (toLowerCase (trim (q f))) (toLowerCase (search_text r)))"

text \<open>
  On the heap: \<open>preserves h h'\<close> says that \<open>h'\<close> has the record objects of
  \<open>h\<close> and every array of \<open>h\<close>, unchanged, at its address;
  \<open>fresh_groups h s\<close> that moreover the arrays of the map of \<open>s\<close> are new
  ones; \<open>view h m\<close> reads the map of addresses \<open>m\<close> as a map of lists of
  records.
\<close>

definition preserves :: "heap \<Rightarrow> heap \<Rightarrow> bool" where
  "preserves h h' \<longleftrightarrow>
     objects h' = objects h
     \<and> length (arrays h) \<le> length (arrays h')
     \<and> (\<forall>a < length (arrays h). arrays h' ! a = arrays h ! a)"

definition fresh_groups :: "heap \<Rightarrow> heap \<times> (jsval, nat) jsmap \<Rightarrow> bool" where
  "fresh_groups h s \<longleftrightarrow>
     preserves h (fst s)
     \<and> (\<forall>a \<in> snd ` set (snd s). length (arrays h) \<le> a \<and> a < length (arrays (fst s)))"

definition view :: "heap \<Rightarrow> (jsval, nat) jsmap \<Rightarrow> (jsval, meeting list) jsmap" where
  "view h m = map (\<lambda>(k, a). (k, map (deref h) (arrays h ! a))) m"

text \<open>
  Sample data: a date constructor that reads one text, a row, three records (one without
  date, one dated on the eve of the epoch, one dated in 2025), three filter settings and a
  heap holding the three records in one array.
\<close>

definition demo_newDate :: "string \<Rightarrow> jsdate option" where
  "demo_newDate s =
     (if s = ''2025-01-10''
      then Some \<lparr>getTime = 1736467200000, getFullYear = 2025, getMonth = 0, getDate = 10\<rparr>
      else None)"

definition demo_row :: raw_row where
  "demo_row =
     [(''Date of Meeting'', ''2025-01-10''),
      (''Student Name (be consistent)'', ''Alice''),
      (''Meeting Topic'', ''Kickoff''),
      (''Subtopics / Agenda Items'', ''Scope; Timeline'')]"

definition undated_example :: meeting where
  "undated_example =
     \<lparr> meeting_id = Str [], date = None, date_label = [], student = Str ''Alice'',
       project = Str ''ProjA'', topic = Str ''Kickoff'', subtopics = [],
       my_inputs = Str ''(No inputs)'', link = Str [], action_items = [], raw_ = [] \<rparr>"

definition epoch_eve_example :: meeting where
  "epoch_eve_example =
     \<lparr> meeting_id = Str [],
       date = Some \<lparr> getTime = - 86400000, getFullYear = 1969, getMonth = 11, getDate = 31 \<rparr>,
       date_label = ''1969-12-31'', student = Str ''Alice'',
       project = Str ''ProjA'', topic = Str ''Review'', subtopics = [],
       my_inputs = Str ''(No inputs)'', link = Str [], action_items = [], raw_ = [] \<rparr>"

definition bob_example :: meeting where
  "bob_example =
     \<lparr> meeting_id = Str [],
       date = Some \<lparr> getTime = 1736467200000, getFullYear = 2025, getMonth = 0, getDate = 10 \<rparr>,
       date_label = ''2025-01-10'', student = Str ''Bob'',
       project = Str ''ProjA'', topic = Str ''Kickoff'', subtopics = [''Scope'', ''Timeline''],
       my_inputs = Str ''Looks good'', link = Str [], action_items = [], raw_ = [] \<rparr>"

definition bounds_example :: filters where
  "bounds_example =
     \<lparr> projectFilter = ''ALL'', studentFilter = ''ALL'',
       dateFrom = ''2025-01-10'', dateTo = ''2025-01-10'', q = [] \<rparr>"

definition padded_query_example :: filters where
  "padded_query_example =
     \<lparr> projectFilter = ''ALL'', studentFilter = ''ALL'', dateFrom = [], dateTo = [],
       q = '' ALICE'' \<rparr>"

definition student_query_example :: filters where
  "student_query_example =
     \<lparr> projectFilter = ''ALL'', studentFilter = ''Bob'', dateFrom = [], dateTo = [],
       q = '' Time '' \<rparr>"

definition heap_example :: heap where
  "heap_example =
     \<lparr> objects = [epoch_eve_example, undated_example, bob_example], arrays = [[0, 1, 2]] \<rparr>"

section \<open>Properties of the helpers\<close>

subsection \<open>Splitting and trimming\<close>

lemma split_on_not_Nil: "split_on p s \<noteq> []"
  by (induction s) (auto split: list.splits)

lemma split_on_no_delim: "w \<in> set (split_on p s) \<Longrightarrow> c \<in> set w \<Longrightarrow> \<not> p c"
proof (induction s arbitrary: w)
  case Nil
  then show ?case by simp
next
  case (Cons a s)
  obtain v vs where vs: "split_on p s = v # vs"
    using split_on_not_Nil [of p s] by (cases "split_on p s") auto
  show ?case
  proof (cases "p a")
    case True
    with Cons show ?thesis by auto
  next
    case False
    with Cons.prems vs have "w = a # v \<or> w \<in> set vs" by auto
    then show ?thesis
      using Cons.IH [of v] Cons.IH [of w] Cons.prems(2) False vs by auto
  qed
qed

lemma length_split_on: "length (split_on p s) = Suc (length (filter p s))"
  by (induction s) (auto split: list.splits)

lemma unsplit_split_on: "unsplit (split_on p s) (filter p s) = s"
proof (induction s)
  case Nil
  then show ?case by simp
next
  case (Cons a s)
  obtain v vs where vs: "split_on p s = v # vs"
    using split_on_not_Nil [of p s] by (cases "split_on p s") auto
  show ?case
  proof (cases "p a")
    case True
    with Cons vs show ?thesis by simp
  next
    case False
    show ?thesis
    proof (cases vs)
      case Nil
      with Cons vs False show ?thesis by simp
    next
      case (Cons u us)
      have "filter p s \<noteq> []"
        using length_split_on [of p s] vs Cons by auto
      then obtain d ds where "filter p s = d # ds" by (cases "filter p s") auto
      with Cons.IH vs Cons False show ?thesis by simp
    qed
  qed
qed

lemma split_on_no_delims: "\<forall>c \<in> set s. \<not> p c \<Longrightarrow> split_on p s = [s]"
  by (induction s) auto

lemma dropWhile_trim: "dropWhile is_space (trim s) = trim s"
proof -
  define t where "t = dropWhile is_space s"
  define u where "u = rev (dropWhile is_space (rev t))"
  have t: "t = u @ rev (takeWhile is_space (rev t))"
    unfolding u_def by (metis rev_append rev_rev_ident takeWhile_dropWhile_id)
  have "dropWhile is_space u = u"
  proof (cases u)
    case Nil
    then show ?thesis by simp
  next
    case (Cons a as)
    with t have "t = a # (as @ rev (takeWhile is_space (rev t)))" by simp
    then have "t \<noteq> []" and "hd t = a" by (metis list.distinct(1), metis list.sel(1))
    then have "\<not> is_space a" unfolding t_def using hd_dropWhile by metis
    with Cons show ?thesis by simp
  qed
  then show ?thesis by (simp add: trim_def t_def u_def)
qed

lemma dropWhile_rev_trim: "dropWhile is_space (rev (trim s)) = rev (trim s)"
proof -
  have "dropWhile is_space (dropWhile is_space xs) = dropWhile is_space xs" for xs :: string
    by (metis dropWhile_eq_Nil_conv dropWhile_idem hd_dropWhile list.collapse dropWhile.simps(2) list.exhaust)
  then show ?thesis by (simp add: trim_def)
qed

lemma trim_trim: "trim (trim s) = trim s"
  using dropWhile_trim [of s] dropWhile_rev_trim [of s] by (simp add: trim_def)

lemma trim_ends: "trim s \<noteq> [] \<Longrightarrow> \<not> is_space (hd (trim s)) \<and> \<not> is_space (last (trim s))"
proof -
  assume ne: "trim s \<noteq> []"
  have a: "\<not> is_space (hd (trim s))"
    using dropWhile_trim [of s] ne by (metis hd_dropWhile)
  have "rev (trim s) \<noteq> []" using ne by simp
  then have "\<not> is_space (hd (rev (trim s)))"
    using dropWhile_rev_trim [of s] by (metis hd_dropWhile)
  then have b: "\<not> is_space (last (trim s))" using ne by (simp add: hd_rev)
  from a b show ?thesis by simp
qed

lemma splitList_Str: "splitList (Str s) = filter (\<lambda>w. w \<noteq> []) (map trim (split_on is_delim s))"
  by (cases s) (simp_all add: splitList_def truthy_def js_String_def trim_def)

lemma splitList_elems: "x \<in> set (splitList v) \<Longrightarrow> x \<noteq> [] \<and> trim x = x"
  by (auto simp: splitList_def trim_trim split: if_splits)

lemma splitList_clean:
  "x \<in> set (splitList v) \<Longrightarrow>
   x \<noteq> [] \<and> trim x = x \<and> \<not> is_space (hd x) \<and> \<not> is_space (last x)"
proof -
  assume "x \<in> set (splitList v)"
  then have x: "x \<noteq> [] \<and> trim x = x" by (rule splitList_elems)
  then show ?thesis using trim_ends [of x] by simp
qed

lemma splitList_or_empty: "splitList (js_or (Str v) (Str [])) = splitList (Str v)"
  by (simp add: js_or_def truthy_def)

subsection \<open>Values, columns and the fields of a normalized record\<close>

lemma column_simps:
  "column ''timestamp'' = Str ''Timestamp''"
  "column ''date'' = Str ''Date of Meeting''"
  "column ''student'' = Str ''Student Name (be consistent)''"
  "column ''project'' = Str ''Discussed Project Title  (be consistent)''"
  "column ''topic'' = Str ''Meeting Topic''"
  "column ''subtopics'' = Str ''Subtopics / Agenda Items''"
  "column ''my_inputs'' = Str ''Supervisor Inputs & Suggestions''"
  "column ''link'' = Str ''Link to Additional Materials (Optional)''"
  "column ''action_points'' = Str ''Action Points''"
  "column ''meeting_id'' = Undefined"
  by (simp_all add: column_def COLUMN_MAP_def)

lemma prop_get_Str: "prop_get raw (Str k) = (case map_of raw k of None \<Rightarrow> Undefined | Some v \<Rightarrow> Str v)"
  by (simp add: prop_get_def js_String_def)

lemma prop_get_Undefined:
  "prop_get raw Undefined = (case map_of raw ''undefined'' of None \<Rightarrow> Undefined | Some v \<Rightarrow> Str v)"
  by (simp add: prop_get_def js_String_def)

lemma js_or_default: "s \<noteq> [] \<Longrightarrow> \<exists>t. js_or v (Str s) = Str t \<and> t \<noteq> []"
  by (cases v) (auto simp: js_or_def truthy_def)

lemma js_or_falsy: "\<not> truthy v \<Longrightarrow> js_or v w = w"
  by (simp add: js_or_def)

lemma normalizeRecord_fields:
  "meeting_id (normalizeRecord nd raw) = js_or (prop_get raw Undefined) (Str [])"
  "project (normalizeRecord nd raw) =
     js_or (prop_get raw (Str ''Discussed Project Title  (be consistent)'')) (Str ''Unspecified Project'')"
  "topic (normalizeRecord nd raw) = js_or (prop_get raw (Str ''Meeting Topic'')) (Str ''(No topic)'')"
  "my_inputs (normalizeRecord nd raw) =
     js_or (prop_get raw (Str ''Supervisor Inputs & Suggestions'')) (Str ''(No inputs)'')"
  "subtopics (normalizeRecord nd raw) =
     splitList (js_or (prop_get raw (Str ''Subtopics / Agenda Items'')) (Str []))"
  "action_items (normalizeRecord nd raw) =
     splitList (js_or (pickColumn raw (Str ''Action Points'') action_regex) (Str []))"
  "date (normalizeRecord nd raw) =
     parseDateLoose nd (js_or (prop_get raw (Str ''Date of Meeting'')) (prop_get raw (Str ''Timestamp'')))"
  "date_label (normalizeRecord nd raw) =
     (let dateRaw = js_or (prop_get raw (Str ''Date of Meeting'')) (prop_get raw (Str ''Timestamp''));
          d = parseDateLoose nd dateRaw
      in if d \<noteq> None then toYMD d else js_String (js_or dateRaw (Str [])))"
  by (simp_all add: normalizeRecord_def Let_def column_simps)

lemma toYMD_Some:
  "toYMD (Some d) =
     show_int (getFullYear d) @ ''-'' @ padStart 2 CHR ''0'' (show_nat (getMonth d + 1))
       @ ''-'' @ padStart 2 CHR ''0'' (show_nat (getDate d))"
  by (simp add: toYMD_def Let_def)

lemma parseDateLoose_Some_truthy: "parseDateLoose nd v = Some d \<Longrightarrow> truthy v"
  by (auto simp: parseDateLoose_def split: if_splits)

subsection \<open>Picking a column\<close>

lemma pickColumn_present:
  "map_of raw k = Some v \<Longrightarrow> k \<noteq> [] \<Longrightarrow> pickColumn raw (Str k) regex = Str v"
  by (simp add: pickColumn_def truthy_def hasOwnProperty_def js_String_def prop_get_def)

lemma scan_keys_find:
  "scan_keys raw regex ks =
     (case find (regex_test regex) ks of None \<Rightarrow> Undefined | Some k \<Rightarrow> prop_get raw (Str k))"
  by (induction ks) auto

lemma pickColumn_absent:
  "map_of raw k = None \<Longrightarrow>
   pickColumn raw (Str k) regex =
     (case find (regex_test regex) (map fst raw) of
        None \<Rightarrow> Undefined | Some h \<Rightarrow> prop_get raw (Str h))"
  by (simp add: pickColumn_def hasOwnProperty_def js_String_def scan_keys_find Object_keys_def)

lemma find_append_first:
  "\<forall>h \<in> set pre. \<not> P h \<Longrightarrow> P k \<Longrightarrow> find P (pre @ k # post) = Some k"
  by (induction pre) auto

lemma map_of_append_first:
  "k \<notin> fst ` set pre \<Longrightarrow> map_of (pre @ (k, v) # post) k = Some v"
  by (induction pre) auto

subsection \<open>The matcher finds exactly the words of the pattern\<close>

lemma match_lit_iff:
  "match_lit p s = Some t \<longleftrightarrow> (\<exists>w. s = w @ t \<and> map canonicalize w = map canonicalize p)"
proof (induction p s rule: match_lit.induct)
  case (1 s)
  then show ?case by auto
next
  case (2 p ps)
  then show ?case by auto
next
  case (3 p ps c cs)
  show ?case
  proof
    assume "match_lit (p # ps) (c # cs) = Some t"
    then have c: "canonicalize c = canonicalize p" and m: "match_lit ps cs = Some t"
      by (auto split: if_splits)
    from m 3 c obtain w where "cs = w @ t" "map canonicalize w = map canonicalize ps" by auto
    with c have "c # cs = (c # w) @ t \<and> map canonicalize (c # w) = map canonicalize (p # ps)"
      by simp
    then show "\<exists>w. c # cs = w @ t \<and> map canonicalize w = map canonicalize (p # ps)" by blast
  next
    assume "\<exists>w. c # cs = w @ t \<and> map canonicalize w = map canonicalize (p # ps)"
    then obtain w where w: "c # cs = w @ t" "map canonicalize w = map canonicalize (p # ps)"
      by blast
    then obtain x xs where x: "w = x # xs" by (cases w) auto
    with w have "x = c" "cs = xs @ t" "canonicalize c = canonicalize p"
      "map canonicalize xs = map canonicalize ps" by auto
    with 3 show "match_lit (p # ps) (c # cs) = Some t" by auto
  qed
qed

lemma spaces_rests_iff:
  "t \<in> set (spaces_rests s) \<longleftrightarrow> (\<exists>w. s = w @ t \<and> (\<forall>c \<in> set w. is_space c))"
proof (induction s)
  case Nil
  then show ?case by auto
next
  case (Cons a s)
  show ?case
  proof
    assume "t \<in> set (spaces_rests (a # s))"
    then consider "t = a # s" | "is_space a" "t \<in> set (spaces_rests s)"
      by (auto split: if_splits)
    then show "\<exists>w. a # s = w @ t \<and> (\<forall>c \<in> set w. is_space c)"
    proof cases
      case 1
      then have "a # s = [] @ t \<and> (\<forall>c \<in> set []. is_space c)" by simp
      then show ?thesis by blast
    next
      case 2
      with Cons obtain w where "s = w @ t" "\<forall>c \<in> set w. is_space c" by auto
      with 2 have "a # s = (a # w) @ t \<and> (\<forall>c \<in> set (a # w). is_space c)" by simp
      then show ?thesis by blast
    qed
  next
    assume "\<exists>w. a # s = w @ t \<and> (\<forall>c \<in> set w. is_space c)"
    then obtain w where w: "a # s = w @ t" "\<forall>c \<in> set w. is_space c" by blast
    show "t \<in> set (spaces_rests (a # s))"
    proof (cases w)
      case Nil
      with w have "t = a # s" by simp
      then show ?thesis by simp
    next
      case (Cons x xs)
      with w have "x = a" "s = xs @ t" "is_space a" "\<forall>c \<in> set xs. is_space c" by auto
      with Cons.IH show ?thesis by auto
    qed
  qed
qed

lemma rx_rests_iff: "t \<in> set (rx_rests r s) \<longleftrightarrow> (\<exists>w \<in> rx_lang r. s = w @ t)"
proof (induction r arbitrary: s t)
  case (Lit p)
  have "t \<in> set (rx_rests (Lit p) s) \<longleftrightarrow> match_lit p s = Some t"
    by (auto split: option.splits)
  then show ?case using match_lit_iff [of p s t] by auto
next
  case Spaces
  then show ?case using spaces_rests_iff [of t s] by auto
next
  case (Opt r)
  then show ?case by auto
next
  case (Seq a b)
  have "t \<in> set (rx_rests (Seq a b) s) \<longleftrightarrow> (\<exists>m \<in> set (rx_rests a s). t \<in> set (rx_rests b m))"
    by auto
  also have "\<dots> \<longleftrightarrow> (\<exists>m. (\<exists>u \<in> rx_lang a. s = u @ m) \<and> (\<exists>v \<in> rx_lang b. m = v @ t))"
    using Seq by blast
  also have "\<dots> \<longleftrightarrow> (\<exists>u v. u \<in> rx_lang a \<and> v \<in> rx_lang b \<and> s = u @ v @ t)"
    by blast
  also have "\<dots> \<longleftrightarrow> (\<exists>w \<in> rx_lang (Seq a b). s = w @ t)"
    by (simp add: Bex_def) (metis append_assoc)
  finally show ?case .
next
  case (Alt a b)
  then show ?case by auto
qed

lemma regex_test_iff:
  "regex_test r s \<longleftrightarrow> (\<exists>pre w post. s = pre @ w @ post \<and> w \<in> rx_lang r)"
proof -
  have ne: "rx_rests r u \<noteq> [] \<longleftrightarrow> (\<exists>w post. u = w @ post \<and> w \<in> rx_lang r)" for u
  proof -
    have "rx_rests r u \<noteq> [] \<longleftrightarrow> (\<exists>t. t \<in> set (rx_rests r u))"
      by (cases "rx_rests r u") auto
    then show ?thesis using rx_rests_iff [of _ r u] by blast
  qed
  have "regex_test r s \<longleftrightarrow> (\<exists>pre u. s = pre @ u \<and> rx_rests r u \<noteq> [])"
  proof (induction s)
    case Nil
    then show ?case by simp
  next
    case (Cons a s)
    have "(\<exists>pre u. a # s = pre @ u \<and> rx_rests r u \<noteq> []) \<longleftrightarrow>
          rx_rests r (a # s) \<noteq> [] \<or> (\<exists>pre u. s = pre @ u \<and> rx_rests r u \<noteq> [])"
      (is "?L \<longleftrightarrow> ?A \<or> ?B")
    proof
      assume ?L
      then obtain pre u where p: "a # s = pre @ u" "rx_rests r u \<noteq> []" by blast
      show "?A \<or> ?B"
      proof (cases pre)
        case Nil
        with p show ?thesis by simp
      next
        case (Cons x xs)
        with p have "s = xs @ u" by simp
        with p show ?thesis by blast
      qed
    next
      assume "?A \<or> ?B"
      then show ?L
      proof
        assume ?A
        then have "a # s = [] @ (a # s) \<and> rx_rests r (a # s) \<noteq> []" by simp
        then show ?L by blast
      next
        assume ?B
        then obtain pre u where "s = pre @ u" "rx_rests r u \<noteq> []" by blast
        then have "a # s = (a # pre) @ u \<and> rx_rests r u \<noteq> []" by simp
        then show ?L by blast
      qed
    qed
    with Cons show ?case by simp
  qed
  then show ?thesis using ne by metis
qed

lemma regex_action_items_next_week: "regex_test action_regex ''Action Items (for next week)''"
  by (simp add: action_regex_def canonicalize_def is_space_def)

subsection \<open>Sorting by date\<close>

text \<open>
  The comparator \<open>tb - ta\<close> orders by the negated time stamp, so the sort is the
  stable insertion sort by that key.
\<close>

lemma insert_sorted_insort_key:
  "insert_sorted byDateDesc x ys = insort_key (\<lambda>r. - timestamp r) x ys"
  by (induction ys) (simp_all add: byDateDesc_def Let_def)

lemma js_sort_sort_key: "js_sort byDateDesc xs = sort_key (\<lambda>r. - timestamp r) xs"
  by (induction xs) (simp_all add: js_sort_def insert_sorted_insort_key)

lemma mset_js_sort: "mset (js_sort byDateDesc xs) = mset xs"
  by (simp add: js_sort_sort_key)

lemma set_js_sort: "set (js_sort byDateDesc xs) = set xs"
  by (simp add: js_sort_sort_key)

lemma sorted_js_sort: "sorted_wrt (\<lambda>a b. timestamp b \<le> timestamp a) (js_sort byDateDesc xs)"
proof -
  have "sorted (map (\<lambda>r. - timestamp r) (js_sort byDateDesc xs))"
    by (simp add: js_sort_sort_key)
  then show ?thesis by (simp add: sorted_map)
qed

lemma stable_js_sort:
  "filter (\<lambda>r. timestamp r = t) (js_sort byDateDesc xs) = filter (\<lambda>r. timestamp r = t) xs"
proof -
  have "filter (\<lambda>r. - timestamp r = - t) (sort_key (\<lambda>r. - timestamp r) xs)
      = filter (\<lambda>r. - timestamp r = - t) xs"
    by (rule sort_key_stable)
  then show ?thesis by (simp add: js_sort_sort_key)
qed

lemma timestamp_None: "date r = None \<Longrightarrow> timestamp r = 0"
  by (simp add: timestamp_def)

lemma undated_js_sort:
  "filter (\<lambda>r. date r = None) (js_sort byDateDesc xs) = filter (\<lambda>r. date r = None) xs"
proof -
  have "filter (\<lambda>r. date r = None) ys = filter (\<lambda>r. date r = None) (filter (\<lambda>r. timestamp r = 0) ys)"
    for ys :: "meeting list"
    by (induction ys) (auto simp: timestamp_None)
  then show ?thesis by (metis stable_js_sort)
qed

lemma undated_last:
  assumes s: "sorted_wrt (\<lambda>a b. timestamp b \<le> timestamp a) g"
    and i: "i < length g" and j: "j < length g"
    and u: "date (g ! i) = None" and p: "0 < timestamp (g ! j)"
  shows "j < i"
proof (rule ccontr)
  assume "\<not> j < i"
  then consider "i = j" | "i < j" by linarith
  then show False
  proof cases
    case 1
    with u p show False by (simp add: timestamp_None)
  next
    case 2
    with s j have "timestamp (g ! j) \<le> timestamp (g ! i)"
      using sorted_wrt_nth_less [of "\<lambda>a b. timestamp b \<le> timestamp a" g i j] by simp
    with u p show False by (simp add: timestamp_None)
  qed
qed

lemma undated_first:
  assumes s: "sorted_wrt (\<lambda>a b. timestamp b \<le> timestamp a) g"
    and i: "i < length g" and j: "j < length g"
    and u: "date (g ! i) = None" and p: "timestamp (g ! j) < 0"
  shows "i < j"
proof (rule ccontr)
  assume "\<not> i < j"
  then consider "i = j" | "j < i" by linarith
  then show False
  proof cases
    case 1
    with u p show False by (simp add: timestamp_None)
  next
    case 2
    with s i have "timestamp (g ! i) \<le> timestamp (g ! j)"
      using sorted_wrt_nth_less [of "\<lambda>a b. timestamp b \<le> timestamp a" g j i] by simp
    with u p show False by (simp add: timestamp_None)
  qed
qed

lemma js_sort_Nil_iff: "js_sort byDateDesc xs = [] \<longleftrightarrow> xs = []"
  by (metis mset_js_sort mset_zero_iff)

lemma js_sort_properties:
  "mset (js_sort byDateDesc xs) = mset xs
   \<and> sorted_wrt (\<lambda>a b. timestamp b \<le> timestamp a) (js_sort byDateDesc xs)
   \<and> (\<forall>t. filter (\<lambda>r. timestamp r = t) (js_sort byDateDesc xs) = filter (\<lambda>r. timestamp r = t) xs)
   \<and> filter (\<lambda>r. date r = None) (js_sort byDateDesc xs) = filter (\<lambda>r. date r = None) xs
   \<and> (\<forall>i j. i < length (js_sort byDateDesc xs) \<and> j < length (js_sort byDateDesc xs)
          \<and> date (js_sort byDateDesc xs ! i) = None \<and> 0 < timestamp (js_sort byDateDesc xs ! j)
        \<longrightarrow> j < i)
   \<and> (\<forall>i j. i < length (js_sort byDateDesc xs) \<and> j < length (js_sort byDateDesc xs)
          \<and> date (js_sort byDateDesc xs ! i) = None \<and> timestamp (js_sort byDateDesc xs ! j) < 0
        \<longrightarrow> i < j)"
  using mset_js_sort [of xs] sorted_js_sort [of xs] stable_js_sort [of _ xs] undated_js_sort [of xs]
    undated_last [OF sorted_js_sort [of xs]] undated_first [OF sorted_js_sort [of xs]]
  by blast

lemma map_insert_sorted:
  "map f (insert_sorted (\<lambda>x y. cmp (f x) (f y)) x ys) = insert_sorted cmp (f x) (map f ys)"
  by (induction ys) simp_all

lemma map_js_sort: "map f (js_sort (\<lambda>x y. cmp (f x) (f y)) xs) = js_sort cmp (map f xs)"
  by (induction xs) (simp_all add: js_sort_def map_insert_sorted)

subsection \<open>Grouping\<close>

lemma map_of_group_step:
  "map_of (group_step m r) k =
     (if k = group_key r
      then Some ((case map_of m k of None \<Rightarrow> [] | Some arr \<Rightarrow> arr) @ [r])
      else map_of m k)"
  by (auto simp: group_step_def group_key_def Let_def map_has_def map_set_def update_conv'
      split: option.splits)

lemma distinct_group_step:
  "distinct (map fst m) \<Longrightarrow> distinct (map fst (group_step m r))"
  by (auto simp: group_step_def Let_def map_has_def map_set_def distinct_update update_conv'
      split: option.splits)

lemma distinct_foldl_group_step:
  "distinct (map fst m) \<Longrightarrow> distinct (map fst (foldl group_step m rs))"
  by (induction rs arbitrary: m) (simp_all add: distinct_group_step)

lemma map_of_foldl_group_step:
  "map_of (foldl group_step m rs) k =
     (case map_of m k of
        Some arr \<Rightarrow> Some (arr @ filter (\<lambda>r. group_key r = k) rs)
      | None \<Rightarrow> (if filter (\<lambda>r. group_key r = k) rs = [] then None
                 else Some (filter (\<lambda>r. group_key r = k) rs)))"
proof (induction rs arbitrary: m)
  case Nil
  then show ?case by (simp split: option.splits)
next
  case (Cons r rs)
  show ?case
    by (cases "map_of m k") (auto simp: Cons map_of_group_step)
qed

lemma map_of_map_values:
  "map_of (map (\<lambda>(k, v). (k, f v)) m) k = map_option f (map_of m k)"
  by (induction m) auto

lemma map_fst_map_values: "map fst (map (\<lambda>(k, v). (k, f v)) m) = map fst m"
  by (induction m) auto

lemma map_of_groupByProject:
  "map_of (groupByProject records) k =
     (if filter (\<lambda>r. group_key r = k) records = [] then None
      else Some (js_sort byDateDesc (filter (\<lambda>r. group_key r = k) records)))"
  by (simp add: groupByProject_def Let_def map_of_map_values map_of_foldl_group_step)

lemma distinct_groupByProject: "distinct (map fst (groupByProject records))"
  unfolding groupByProject_def Let_def map_fst_map_values
  by (rule distinct_foldl_group_step) simp

lemma group_lookup:
  "map_of (groupByProject records) k = Some g \<Longrightarrow>
   g = js_sort byDateDesc (filter (\<lambda>r. group_key r = k) records)"
  by (simp add: map_of_groupByProject split: if_splits)

lemma mem_not_Nil: "x \<in> set xs \<Longrightarrow> xs \<noteq> []"
  by (cases xs) simp_all

subsection \<open>Filtering\<close>

lemma hay_search_text: "hay r = toLowerCase (search_text r)"
  by (simp add: hay_def search_text_def)

lemma toLowerCase_Nil_iff: "toLowerCase s = [] \<longleftrightarrow> s = []"
  by (simp add: toLowerCase_def)

lemma before_bound_iff:
  "before_bound (bound_of newDate s) d' \<longleftrightarrow>
     s \<noteq> [] \<and> (\<exists>d b. d' = Some d \<and> newDate s = Some b \<and> getTime d < getTime b)"
  by (auto simp: before_bound_def bound_of_def split: option.splits)

lemma after_bound_iff:
  "after_bound (bound_of newDate s) d' \<longleftrightarrow>
     s \<noteq> [] \<and> (\<exists>d b. d' = Some d \<and> newDate s = Some b \<and> getTime b < getTime d)"
  by (auto simp: after_bound_def bound_of_def split: option.splits)

lemma keep_without_bounds:
  "keep newDate f r \<longleftrightarrow>
     keep newDate (f\<lparr>dateFrom := [], dateTo := []\<rparr>) r
     \<and> \<not> before_bound (bound_of newDate (dateFrom f)) (date r)
     \<and> \<not> after_bound (bound_of newDate (dateTo f)) (date r)"
  by (auto simp: keep_def Let_def bound_of_def before_bound_def after_bound_def)

lemma keep_matches_trimmed: "keep newDate f r = matches_trimmed newDate f r"
proof -
  have "keep newDate f r \<longleftrightarrow>
     (projectFilter f = ''ALL'' \<or> project r = Str (projectFilter f))
     \<and> (studentFilter f = ''ALL'' \<or> student r = Str (studentFilter f))
     \<and> \<not> before_bound (bound_of newDate (dateFrom f)) (date r)
     \<and> \<not> after_bound (bound_of newDate (dateTo f)) (date r)
     \<and> (trim (q f) = [] \<or> sublist (toLowerCase (trim (q f))) (toLowerCase (search_text r)))"
    by (auto simp: keep_def Let_def hay_search_text toLowerCase_Nil_iff)
  then show ?thesis
    unfolding matches_trimmed_def before_bound_iff after_bound_iff .
qed

subsection \<open>The heap: what grouping and sorting leave alone\<close>

lemma preserves_refl: "preserves h h"
  by (simp add: preserves_def)

lemma preserves_new_array: "preserves h h' \<Longrightarrow> preserves h (fst (new_array h'))"
  by (auto simp: preserves_def new_array_def nth_append)

lemma preserves_array_copy: "preserves h h' \<Longrightarrow> preserves h (fst (array_copy h' a))"
  by (auto simp: preserves_def array_copy_def nth_append)

lemma preserves_array_push:
  "preserves h h' \<Longrightarrow> length (arrays h) \<le> a \<Longrightarrow> preserves h (array_push h' a r)"
  by (auto simp: preserves_def array_push_def)

lemma preserves_array_sort:
  "preserves h h' \<Longrightarrow> length (arrays h) \<le> a \<Longrightarrow> preserves h (array_sort h' a)"
  by (auto simp: preserves_def array_sort_def)

lemma length_array_push: "length (arrays (array_push h a r)) = length (arrays h)"
  by (simp add: array_push_def)

lemma length_array_sort: "length (arrays (array_sort h a)) = length (arrays h)"
  by (simp add: array_sort_def)

lemma fresh_groups_step:
  assumes "fresh_groups h s"
  shows "fresh_groups h (group_step_heap s r)"
proof -
  obtain h1 m where s: "s = (h1, m)" by (cases s)
  define key where "key = js_or (project (deref h1 r)) (Str ''Unspecified Project'')"
  define s1 where "s1 = (if \<not> map_has m key
                then (let (h', a) = new_array h1 in (h', map_set m key a))
                else (h1, m))"
  have step: "group_step_heap s r =
      (case map_of (snd s1) key of None \<Rightarrow> s1 | Some a \<Rightarrow> (array_push (fst s1) a r, snd s1))"
    unfolding group_step_heap_def s s1_def key_def Let_def fst_conv snd_conv ..
  have f1: "fresh_groups h s1"
  proof (cases "map_has m key")
    case True
    with assms s show ?thesis by (simp add: s1_def)
  next
    case False
    then have s1: "s1 = (h1\<lparr>arrays := arrays h1 @ [[]]\<rparr>, AList.update key (length (arrays h1)) m)"
      by (simp add: s1_def new_array_def map_set_def)
    from False have "map_of m key = None" by (simp add: map_has_def)
    then have "key \<notin> fst ` set m" by (simp add: map_of_eq_None_iff)
    then have upd: "AList.update key (length (arrays h1)) m = m @ [(key, length (arrays h1))]"
      by (induction m) auto
    from assms s have p: "preserves h h1"
      and old: "\<forall>a \<in> snd ` set m. length (arrays h) \<le> a \<and> a < length (arrays h1)"
      by (simp_all add: fresh_groups_def)
    from p have "preserves h (h1\<lparr>arrays := arrays h1 @ [[]]\<rparr>)"
      using preserves_new_array [of h h1] by (simp add: new_array_def)
    moreover from p have "length (arrays h) \<le> length (arrays h1)" by (simp add: preserves_def)
    ultimately show ?thesis
      using old unfolding s1 upd fresh_groups_def by auto
  qed
  show ?thesis
  proof (cases "map_of (snd s1) key")
    case None
    with step f1 show ?thesis by simp
  next
    case (Some a)
    then have "a \<in> snd ` set (snd s1)"
      by (metis map_of_SomeD snd_conv image_eqI)
    with f1 have a: "length (arrays h) \<le> a" and p: "preserves h (fst s1)"
      and all: "\<forall>b \<in> snd ` set (snd s1). length (arrays h) \<le> b \<and> b < length (arrays (fst s1))"
      by (auto simp: fresh_groups_def)
    from p a have "preserves h (array_push (fst s1) a r)" by (rule preserves_array_push)
    with all show ?thesis
      unfolding step Some fresh_groups_def by (simp add: length_array_push)
  qed
qed

lemma fresh_groups_loop:
  "fresh_groups h s \<Longrightarrow> fresh_groups h (group_loop s records i n)"
  by (induction n arbitrary: s i) (simp_all add: fresh_groups_step)

lemma preserves_sort_groups:
  "preserves h h' \<Longrightarrow> \<forall>a \<in> snd ` set m. length (arrays h) \<le> a \<Longrightarrow>
   preserves h (sort_groups m h') \<and> length (arrays (sort_groups m h')) = length (arrays h')"
proof (induction m arbitrary: h')
  case Nil
  then show ?case by (simp add: sort_groups_def)
next
  case (Cons e m)
  obtain k a where e: "e = (k, a)" by (cases e)
  from Cons.prems e have a: "length (arrays h) \<le> a" by simp
  with Cons.prems(1) have p: "preserves h (array_sort h' a)" by (rule preserves_array_sort)
  from Cons.prems(2) have rest: "\<forall>a \<in> snd ` set m. length (arrays h) \<le> a" by simp
  have "sort_groups (e # m) h' = sort_groups m (array_sort h' a)"
    by (simp add: sort_groups_def e)
  with Cons.IH [OF p rest] show ?case by (simp add: length_array_sort)
qed

lemma groupByProject_heap_fresh: "fresh_groups h (groupByProject_heap h records)"
proof -
  define s where "s = group_loop (h, []) records 0 (length (arrays h ! records))"
  have "fresh_groups h (h, [])" by (simp add: fresh_groups_def preserves_refl)
  then have f: "fresh_groups h s" unfolding s_def by (rule fresh_groups_loop)
  then have p: "preserves h (fst s)"
    and a: "\<forall>a \<in> snd ` set (snd s). length (arrays h) \<le> a \<and> a < length (arrays (fst s))"
    by (simp_all add: fresh_groups_def)
  from a have "\<forall>a \<in> snd ` set (snd s). length (arrays h) \<le> a" by blast
  with p have "preserves h (sort_groups (snd s) (fst s))
      \<and> length (arrays (sort_groups (snd s) (fst s))) = length (arrays (fst s))"
    by (rule preserves_sort_groups)
  with a show ?thesis
    by (simp add: groupByProject_heap_def Let_def s_def [symmetric] fresh_groups_def)
qed

lemma sortedRecords_heap_fresh:
  "preserves h (fst (sortedRecords_heap h filtered))
   \<and> snd (sortedRecords_heap h filtered) = length (arrays h)
   \<and> length (arrays (fst (sortedRecords_heap h filtered))) = Suc (length (arrays h))"
proof -
  have "preserves h (fst (array_copy h filtered))"
    using preserves_refl by (rule preserves_array_copy)
  then have "preserves h (array_sort (fst (array_copy h filtered)) (length (arrays h)))"
    by (rule preserves_array_sort) simp
  then show ?thesis
    by (simp add: sortedRecords_heap_def array_copy_def length_array_sort)
qed

subsection \<open>The heap: the groups are those of the lists\<close>

lemma preserves_deref: "preserves h h' \<Longrightarrow> deref h' = deref h"
  by (auto simp: preserves_def deref_def)

lemma map_of_view: "map_of (view h m) k = map_option (\<lambda>a. map (deref h) (arrays h ! a)) (map_of m k)"
  by (induction m) (auto simp: view_def)

lemma map_has_view: "map_has (view h m) k = map_has m k"
  by (simp add: map_has_def map_of_view)

lemma view_cong:
  "deref h' = deref h \<Longrightarrow> \<forall>b \<in> snd ` set m. arrays h' ! b = arrays h ! b \<Longrightarrow> view h' m = view h m"
  by (induction m) (auto simp: view_def)

lemma update_absent: "map_of m k = None \<Longrightarrow> AList.update k v m = m @ [(k, v)]"
  by (induction m) (auto split: if_splits)

lemma view_new_array:
  assumes "\<forall>b \<in> snd ` set m. b < length (arrays h)" and "\<not> map_has m key"
  shows "view (fst (new_array h)) (map_set m key (snd (new_array h))) = map_set (view h m) key []"
proof -
  let ?h' = "h\<lparr>arrays := arrays h @ [[]]\<rparr>"
  from assms(2) have none: "map_of m key = None" by (simp add: map_has_def)
  then have none': "map_of (view h m) key = None" by (simp add: map_of_view)
  have "view ?h' m = view h m"
    using assms(1) by (intro view_cong) (auto simp: deref_def nth_append)
  moreover have "view ?h' [(key, length (arrays h))] = [(key, [])]"
    by (simp add: view_def)
  ultimately have "view ?h' (m @ [(key, length (arrays h))]) = view h m @ [(key, [])]"
    by (simp add: view_def)
  then show ?thesis
    by (simp add: new_array_def map_set_def update_absent [OF none] update_absent [OF none'])
qed

lemma view_push:
  "distinct (map snd m) \<Longrightarrow> \<forall>b \<in> snd ` set m. b < length (arrays h) \<Longrightarrow> map_of m key = Some a \<Longrightarrow>
   view (array_push h a r) m =
     AList.update key (map (deref h) (arrays h ! a) @ [deref h r]) (view h m)"
proof (induction m)
  case Nil
  then show ?case by simp
next
  case (Cons e m)
  obtain k b where e: "e = (k, b)" by (cases e)
  have d: "deref (array_push h a r) = deref h"
    by (auto simp: deref_def array_push_def)
  show ?case
  proof (cases "k = key")
    case True
    with Cons.prems e have ab: "a = b" and lt: "a < length (arrays h)"
      and notin: "a \<notin> snd ` set m" by auto
    from notin have "\<forall>c \<in> snd ` set m. a \<noteq> c" by blast
    then have rest: "view (array_push h a r) m = view h m"
      by (intro view_cong d) (simp add: array_push_def)
    have "arrays (array_push h a r) ! a = arrays h ! a @ [r]"
      using lt by (simp add: array_push_def)
    with rest show ?thesis
      by (simp add: view_def e True ab [symmetric] d)
  next
    case False
    with Cons.prems e have m: "map_of m key = Some a" and dm: "distinct (map snd m)"
      and lm: "\<forall>b \<in> snd ` set m. b < length (arrays h)" by auto
    from m have "a \<in> snd ` set m" by (metis map_of_SomeD snd_conv image_eqI)
    with Cons.prems(1) e have "b \<noteq> a" by auto
    then have "arrays (array_push h a r) ! b = arrays h ! b" by (simp add: array_push_def)
    with Cons.IH [OF dm lm m] False show ?thesis
      by (simp add: view_def e d)
  qed
qed

lemma group_step_refines:
  assumes f: "fresh_groups h s" and dist: "distinct (map snd (snd s))"
  shows "view (fst (group_step_heap s r)) (snd (group_step_heap s r))
           = group_step (view (fst s) (snd s)) (deref h r)
         \<and> distinct (map snd (snd (group_step_heap s r)))"
proof -
  obtain h1 m where s: "s = (h1, m)" by (cases s)
  from f s have p: "preserves h h1"
    and lt: "\<forall>b \<in> snd ` set m. b < length (arrays h1)"
    by (auto simp: fresh_groups_def)
  from p have dr: "deref h1 = deref h" by (rule preserves_deref)
  define key where "key = js_or (project (deref h r)) (Str ''Unspecified Project'')"
  define s1 where "s1 = (if \<not> map_has m key
                then (let (h', a) = new_array h1 in (h', map_set m key a))
                else (h1, m))"
  define mp1 where "mp1 = (if \<not> map_has (view h1 m) key then map_set (view h1 m) key [] else view h1 m)"
  have step: "group_step_heap s r =
      (case map_of (snd s1) key of None \<Rightarrow> s1 | Some a \<Rightarrow> (array_push (fst s1) a r, snd s1))"
    unfolding group_step_heap_def s s1_def key_def Let_def fst_conv snd_conv dr ..
  have pure: "group_step (view h1 m) (deref h r) =
      (case map_of mp1 key of None \<Rightarrow> mp1 | Some arr \<Rightarrow> map_set mp1 key (arr @ [deref h r]))"
    unfolding group_step_def mp1_def key_def Let_def ..
  have v1: "view (fst s1) (snd s1) = mp1"
    and d1: "distinct (map snd (snd s1))"
    and l1: "\<forall>b \<in> snd ` set (snd s1). b < length (arrays (fst s1))"
  proof -
    show "view (fst s1) (snd s1) = mp1"
    proof (cases "map_has m key")
      case True
      then show ?thesis by (simp add: s1_def mp1_def map_has_view)
    next
      case False
      with view_new_array [OF lt False] show ?thesis
        by (simp add: s1_def mp1_def map_has_view split_beta)
    qed
    show "distinct (map snd (snd s1))"
    proof (cases "map_has m key")
      case True
      with dist s show ?thesis by (simp add: s1_def)
    next
      case False
      then have none: "map_of m key = None" by (simp add: map_has_def)
      from lt have "length (arrays h1) \<notin> snd ` set m" by auto
      with dist s False show ?thesis
        by (simp add: s1_def new_array_def map_set_def update_absent [OF none])
    qed
    show "\<forall>b \<in> snd ` set (snd s1). b < length (arrays (fst s1))"
    proof (cases "map_has m key")
      case True
      with lt show ?thesis by (simp add: s1_def)
    next
      case False
      then have none: "map_of m key = None" by (simp add: map_has_def)
      from lt False show ?thesis
        by (auto simp: s1_def new_array_def map_set_def update_absent [OF none])
    qed
  qed
  have d1': "deref (fst s1) = deref h"
    using dr by (auto simp: s1_def new_array_def deref_def fun_eq_iff)
  show ?thesis
  proof (cases "map_of (snd s1) key")
    case None
    then have "map_of mp1 key = None"
      unfolding v1 [symmetric] by (simp add: map_of_view)
    with None step pure v1 d1 s show ?thesis by simp
  next
    case (Some a)
    then have mp: "map_of mp1 key = Some (map (deref h) (arrays (fst s1) ! a))"
      unfolding v1 [symmetric] by (simp add: map_of_view d1')
    have "view (array_push (fst s1) a r) (snd s1) =
        AList.update key (map (deref (fst s1)) (arrays (fst s1) ! a) @ [deref (fst s1) r])
          (view (fst s1) (snd s1))"
      using d1 l1 Some by (rule view_push)
    with Some mp step pure v1 d1 s show ?thesis
      by (simp add: d1' map_set_def)
  qed
qed

lemma group_loop_refines:
  "fresh_groups h s \<Longrightarrow> distinct (map snd (snd s)) \<Longrightarrow> records < length (arrays h) \<Longrightarrow>
   i + n \<le> length (arrays h ! records) \<Longrightarrow>
   view (fst (group_loop s records i n)) (snd (group_loop s records i n))
     = foldl group_step (view (fst s) (snd s)) (map (deref h) (take n (drop i (arrays h ! records))))
   \<and> distinct (map snd (snd (group_loop s records i n)))"
proof (induction n arbitrary: s i)
  case 0
  then show ?case by simp
next
  case (Suc n)
  let ?xs = "arrays h ! records"
  let ?s' = "group_step_heap s (arrays (fst s) ! records ! i)"
  from Suc.prems(1) have "preserves h (fst s)" by (simp add: fresh_groups_def)
  with Suc.prems(3) have same: "arrays (fst s) ! records = ?xs" by (simp add: preserves_def)
  from Suc.prems(4) have i: "i < length ?xs" by simp
  have f': "fresh_groups h ?s'" using Suc.prems(1) by (rule fresh_groups_step)
  from group_step_refines [OF Suc.prems(1) Suc.prems(2), of "?xs ! i"]
  have v: "view (fst ?s') (snd ?s') = group_step (view (fst s) (snd s)) (deref h (?xs ! i))"
    and d: "distinct (map snd (snd ?s'))"
    by (simp_all add: same)
  from Suc.prems(4) have le: "Suc i + n \<le> length ?xs" by simp
  have tk: "take (Suc n) (drop i ?xs) = ?xs ! i # take n (drop (Suc i) ?xs)"
    using i by (simp add: Cons_nth_drop_Suc [symmetric])
  from Suc.IH [OF f' d Suc.prems(3) le] show ?case
    by (simp add: v tk)
qed

lemma arrays_sort_groups:
  "distinct (map snd m) \<Longrightarrow> \<forall>b \<in> snd ` set m. b < length (arrays h) \<Longrightarrow>
   objects (sort_groups m h) = objects h
   \<and> length (arrays (sort_groups m h)) = length (arrays h)
   \<and> (\<forall>b \<in> snd ` set m. arrays (sort_groups m h) ! b =
         js_sort (\<lambda>x y. byDateDesc (deref h x) (deref h y)) (arrays h ! b))"
proof (induction m arbitrary: h)
  case Nil
  then show ?case by (simp add: sort_groups_def)
next
  case (Cons e m)
  obtain k a where e: "e = (k, a)" by (cases e)
  let ?h' = "array_sort h a"
  from Cons.prems e have a: "a < length (arrays h)" and notin: "a \<notin> snd ` set m"
    and dm: "distinct (map snd m)" and lm: "\<forall>b \<in> snd ` set m. b < length (arrays ?h')"
    by (auto simp: length_array_sort)
  have dr: "deref ?h' = deref h" by (auto simp: deref_def array_sort_def)
  have unf: "sort_groups (e # m) h = sort_groups m ?h'"
    by (simp add: sort_groups_def e)
  note IH = Cons.IH [OF dm lm]
  have other: "arrays (sort_groups m ?h') ! a = arrays ?h' ! a"
  proof -
    have "\<forall>c. c \<notin> snd ` set m' \<longrightarrow> arrays (sort_groups m' g) ! c = arrays g ! c" for m' g
    proof (induction m' arbitrary: g)
      case Nil
      then show ?case by (simp add: sort_groups_def)
    next
      case (Cons e' m')
      obtain k' a' where e': "e' = (k', a')" by (cases e')
      have "sort_groups (e' # m') g = sort_groups m' (array_sort g a')"
        by (simp add: sort_groups_def e')
      with Cons [of "array_sort g a'"] e' show ?case
        by (auto simp: array_sort_def)
    qed
    with notin show ?thesis by blast
  qed
  have head: "arrays ?h' ! a = js_sort (\<lambda>x y. byDateDesc (deref h x) (deref h y)) (arrays h ! a)"
    using a by (simp add: array_sort_def)
  from notin have "\<forall>c \<in> snd ` set m. a \<noteq> c" by blast
  then have tail: "\<forall>b \<in> snd ` set m. arrays ?h' ! b = arrays h ! b"
    by (simp add: array_sort_def)
  have obj: "objects ?h' = objects h" by (simp add: array_sort_def)
  from IH have i1: "objects (sort_groups m ?h') = objects h"
    and i2: "length (arrays (sort_groups m ?h')) = length (arrays h)"
    and i3: "\<forall>b \<in> snd ` set m. arrays (sort_groups m ?h') ! b =
         js_sort (\<lambda>x y. byDateDesc (deref h x) (deref h y)) (arrays ?h' ! b)"
    by (simp_all add: obj length_array_sort dr)
  from i3 tail have i3': "\<forall>b \<in> snd ` set m. arrays (sort_groups m ?h') ! b =
         js_sort (\<lambda>x y. byDateDesc (deref h x) (deref h y)) (arrays h ! b)"
    by simp
  from other head have i4: "arrays (sort_groups m ?h') ! a =
         js_sort (\<lambda>x y. byDateDesc (deref h x) (deref h y)) (arrays h ! a)"
    by simp
  from i1 i2 i3' i4 show ?case
    unfolding unf by (simp add: e)
qed

lemma view_sort_groups:
  assumes "distinct (map snd m)" and "\<forall>b \<in> snd ` set m. b < length (arrays h)"
  shows "view (sort_groups m h) m = map (\<lambda>(k, arr). (k, js_sort byDateDesc arr)) (view h m)"
proof -
  note A = arrays_sort_groups [OF assms]
  from A have dr: "deref (sort_groups m h) = deref h" by (auto simp: deref_def)
  from A have srt: "\<forall>b \<in> snd ` set m. arrays (sort_groups m h) ! b =
         js_sort (\<lambda>x y. byDateDesc (deref h x) (deref h y)) (arrays h ! b)" by blast
  have "view (sort_groups m h) m' = map (\<lambda>(k, arr). (k, js_sort byDateDesc arr)) (view h m')"
    if "set m' \<subseteq> set m" for m'
    using that
  proof (induction m')
    case Nil
    then show ?case by (simp add: view_def)
  next
    case (Cons e m')
    obtain k a where e: "e = (k, a)" by (cases e)
    with Cons.prems have "a \<in> snd ` set m" by force
    with srt have "arrays (sort_groups m h) ! a =
         js_sort (\<lambda>x y. byDateDesc (deref h x) (deref h y)) (arrays h ! a)" by blast
    then have "map (deref h) (arrays (sort_groups m h) ! a) = js_sort byDateDesc (map (deref h) (arrays h ! a))"
      by (simp add: map_js_sort)
    moreover from Cons have "view (sort_groups m h) m' = map (\<lambda>(k, arr). (k, js_sort byDateDesc arr)) (view h m')"
      by simp
    ultimately show ?case by (simp add: view_def e dr)
  qed
  then show ?thesis by simp
qed

lemma groupByProject_heap_refines:
  assumes "records < length (arrays h)"
  shows "view (fst (groupByProject_heap h records)) (snd (groupByProject_heap h records))
           = groupByProject (map (deref h) (arrays h ! records))"
proof -
  define s where "s = group_loop (h, []) records 0 (length (arrays h ! records))"
  have f0: "fresh_groups h (h, [])" by (simp add: fresh_groups_def preserves_refl)
  have "view (fst s) (snd s)
        = foldl group_step (view (fst (h, [])) (snd (h, [])))
            (map (deref h) (take (length (arrays h ! records)) (drop 0 (arrays h ! records))))
      \<and> distinct (map snd (snd s))"
    using group_loop_refines [OF f0 _ assms, of 0 "length (arrays h ! records)"]
    by (simp add: s_def)
  then have v: "view (fst s) (snd s) = foldl group_step [] (map (deref h) (arrays h ! records))"
    and d: "distinct (map snd (snd s))"
    by (simp_all add: view_def)
  from f0 have "fresh_groups h s" unfolding s_def by (rule fresh_groups_loop)
  then have l: "\<forall>b \<in> snd ` set (snd s). b < length (arrays (fst s))"
    by (simp add: fresh_groups_def)
  have "view (sort_groups (snd s) (fst s)) (snd s)
      = map (\<lambda>(k, arr). (k, js_sort byDateDesc arr)) (view (fst s) (snd s))"
    using d l by (rule view_sort_groups)
  then show ?thesis
    by (simp add: groupByProject_heap_def groupByProject_def Let_def s_def [symmetric] v)
qed

lemma sortedRecords_heap_refines:
  "map (deref (fst (sortedRecords_heap h filtered)))
       (arrays (fst (sortedRecords_heap h filtered)) ! snd (sortedRecords_heap h filtered))
     = sortedRecords (map (deref h) (arrays h ! filtered))"
proof -
  let ?h1 = "h\<lparr>arrays := arrays h @ [arrays h ! filtered]\<rparr>"
  have dr: "deref ?h1 = deref h" by (auto simp: deref_def)
  have "arrays (array_sort ?h1 (length (arrays h))) ! length (arrays h)
      = js_sort (\<lambda>x y. byDateDesc (deref h x) (deref h y)) (arrays h ! filtered)"
    by (simp add: array_sort_def dr)
  moreover have "deref (array_sort ?h1 (length (arrays h))) = deref h"
    by (auto simp: deref_def array_sort_def)
  ultimately show ?thesis
    by (simp add: sortedRecords_heap_def array_copy_def sortedRecords_def map_js_sort)
qed

subsection \<open>The sample data\<close>

lemma examples_timestamps:
  "timestamp undated_example = 0" "timestamp epoch_eve_example = - 86400000"
  "timestamp bob_example = 1736467200000"
  "group_key undated_example = Str ''ProjA''" "group_key epoch_eve_example = Str ''ProjA''"
  "group_key bob_example = Str ''ProjA''"
  by (simp_all add: timestamp_def undated_example_def epoch_eve_example_def bob_example_def
      group_key_def js_or_def truthy_def)

lemma examples_dates:
  "date undated_example = None" "date epoch_eve_example \<noteq> None" "date bob_example \<noteq> None"
  by (simp_all add: undated_example_def epoch_eve_example_def bob_example_def)

lemma group_examples:
  "groupByProject [undated_example, epoch_eve_example] =
     [(Str ''ProjA'', [undated_example, epoch_eve_example])]"
proof -
  have p: "project undated_example = Str ''ProjA''" "project epoch_eve_example = Str ''ProjA''"
    by (simp_all add: undated_example_def epoch_eve_example_def)
  have "foldl group_step [] [undated_example, epoch_eve_example] =
      [(Str ''ProjA'', [undated_example, epoch_eve_example])]"
    by (simp add: group_step_def Let_def p js_or_def truthy_def map_has_def map_set_def)
  then show ?thesis
    by (simp add: groupByProject_def Let_def js_sort_def byDateDesc_def examples_timestamps)
qed

lemma group_three_examples:
  "groupByProject [undated_example, epoch_eve_example, bob_example] =
     [(Str ''ProjA'', [bob_example, undated_example, epoch_eve_example])]"
proof -
  have p: "project undated_example = Str ''ProjA''" "project epoch_eve_example = Str ''ProjA''"
    "project bob_example = Str ''ProjA''"
    by (simp_all add: undated_example_def epoch_eve_example_def bob_example_def)
  have "foldl group_step [] [undated_example, epoch_eve_example, bob_example] =
      [(Str ''ProjA'', [undated_example, epoch_eve_example, bob_example])]"
    by (simp add: group_step_def Let_def p js_or_def truthy_def map_has_def map_set_def)
  then show ?thesis
    by (simp add: groupByProject_def Let_def js_sort_def byDateDesc_def examples_timestamps)
qed

lemma trim_examples:
  "trim [] = []" "trim '' ALICE'' = ''ALICE''" "trim '' Time '' = ''Time''"
  by (simp_all add: trim_def is_space_def)

lemma lower_examples:
  "toLowerCase ''ALICE'' = ''alice''" "toLowerCase '' ALICE'' = '' alice''"
  "toLowerCase ''Time'' = ''time''"
  by (simp_all add: toLowerCase_def lower_char_def upper_letters_def lower_letters_def)

lemma search_text_examples:
  "toLowerCase (search_text undated_example) =
     ''alice \<newline> proja \<newline> kickoff \<newline>  \<newline> (no inputs)''"
  "toLowerCase (search_text bob_example) =
     ''bob \<newline> proja \<newline> kickoff \<newline> scope timeline \<newline> looks good''"
  by (simp_all add: search_text_def undated_example_def bob_example_def join_elem_def
      toLowerCase_def lower_char_def upper_letters_def lower_letters_def)

lemma sublist_examples:
  "sublist ''alice'' ''alice \<newline> proja \<newline> kickoff \<newline>  \<newline> (no inputs)''"
  "\<not> sublist '' alice'' ''alice \<newline> proja \<newline> kickoff \<newline>  \<newline> (no inputs)''"
  "sublist ''time'' ''bob \<newline> proja \<newline> kickoff \<newline> scope timeline \<newline> looks good''"
  by (simp_all add: sublist_code)

lemma heap_example_timestamps:
  "timestamp (deref heap_example 0) = - 86400000"
  "timestamp (deref heap_example (Suc 0)) = 0"
  "timestamp (deref heap_example 2) = 1736467200000"
  by (simp_all add: deref_def heap_example_def timestamp_def epoch_eve_example_def
      undated_example_def bob_example_def)

section \<open>The properties of the specification\<close>

text \<open>
  C1 (amended). For every sequence of records, each project's group holds exactly the
  records of that project, ordered by date descending, where a record without date counts
  as time stamp zero: such records come after every record whose time stamp is positive
  (and before every record whose time stamp is negative), and records with equal time
  stamps, the undated ones among them, keep their input order. The sort after the filter
  orders its records the same way.
\<close>

theorem sorted_by_date_descending:
  "(map_of (groupByProject records) k = Some g \<longrightarrow>
      mset g = mset (filter (\<lambda>r. group_key r = k) records)
      \<and> sorted_wrt (\<lambda>a b. timestamp b \<le> timestamp a) g
      \<and> (\<forall>t. filter (\<lambda>r. timestamp r = t) g =
               filter (\<lambda>r. timestamp r = t) (filter (\<lambda>r. group_key r = k) records))
      \<and> filter (\<lambda>r. date r = None) g =
          filter (\<lambda>r. date r = None) (filter (\<lambda>r. group_key r = k) records)
      \<and> (\<forall>i j. i < length g \<and> j < length g \<and> date (g ! i) = None \<and> 0 < timestamp (g ! j)
            \<longrightarrow> j < i)
      \<and> (\<forall>i j. i < length g \<and> j < length g \<and> date (g ! i) = None \<and> timestamp (g ! j) < 0
            \<longrightarrow> i < j))
   \<and> (mset (sortedRecords filtered) = mset filtered
      \<and> sorted_wrt (\<lambda>a b. timestamp b \<le> timestamp a) (sortedRecords filtered)
      \<and> (\<forall>t. filter (\<lambda>r. timestamp r = t) (sortedRecords filtered) =
               filter (\<lambda>r. timestamp r = t) filtered)
      \<and> filter (\<lambda>r. date r = None) (sortedRecords filtered) = filter (\<lambda>r. date r = None) filtered
      \<and> (\<forall>i j. i < length (sortedRecords filtered) \<and> j < length (sortedRecords filtered)
             \<and> date (sortedRecords filtered ! i) = None \<and> 0 < timestamp (sortedRecords filtered ! j)
            \<longrightarrow> j < i)
      \<and> (\<forall>i j. i < length (sortedRecords filtered) \<and> j < length (sortedRecords filtered)
             \<and> date (sortedRecords filtered ! i) = None \<and> timestamp (sortedRecords filtered ! j) < 0
            \<longrightarrow> i < j))
   \<and> (date r = None \<longrightarrow> timestamp r = 0)
   \<and> (date r = Some d \<longrightarrow> timestamp r = getTime d)
   \<and> (truthy (project r) \<longrightarrow> group_key r = project r)"
proof -
  have grp: "map_of (groupByProject records) k = Some g \<longrightarrow>
      mset g = mset (filter (\<lambda>r. group_key r = k) records)
      \<and> sorted_wrt (\<lambda>a b. timestamp b \<le> timestamp a) g
      \<and> (\<forall>t. filter (\<lambda>r. timestamp r = t) g =
               filter (\<lambda>r. timestamp r = t) (filter (\<lambda>r. group_key r = k) records))
      \<and> filter (\<lambda>r. date r = None) g =
          filter (\<lambda>r. date r = None) (filter (\<lambda>r. group_key r = k) records)
      \<and> (\<forall>i j. i < length g \<and> j < length g \<and> date (g ! i) = None \<and> 0 < timestamp (g ! j)
            \<longrightarrow> j < i)
      \<and> (\<forall>i j. i < length g \<and> j < length g \<and> date (g ! i) = None \<and> timestamp (g ! j) < 0
            \<longrightarrow> i < j)"
  proof
    assume "map_of (groupByProject records) k = Some g"
    then have g: "g = js_sort byDateDesc (filter (\<lambda>r. group_key r = k) records)"
      by (rule group_lookup)
    show "mset g = mset (filter (\<lambda>r. group_key r = k) records)
      \<and> sorted_wrt (\<lambda>a b. timestamp b \<le> timestamp a) g
      \<and> (\<forall>t. filter (\<lambda>r. timestamp r = t) g =
               filter (\<lambda>r. timestamp r = t) (filter (\<lambda>r. group_key r = k) records))
      \<and> filter (\<lambda>r. date r = None) g =
          filter (\<lambda>r. date r = None) (filter (\<lambda>r. group_key r = k) records)
      \<and> (\<forall>i j. i < length g \<and> j < length g \<and> date (g ! i) = None \<and> 0 < timestamp (g ! j)
            \<longrightarrow> j < i)
      \<and> (\<forall>i j. i < length g \<and> j < length g \<and> date (g ! i) = None \<and> timestamp (g ! j) < 0
            \<longrightarrow> i < j)"
      unfolding g by (rule js_sort_properties)
  qed
  have srt: "mset (sortedRecords filtered) = mset filtered
      \<and> sorted_wrt (\<lambda>a b. timestamp b \<le> timestamp a) (sortedRecords filtered)
      \<and> (\<forall>t. filter (\<lambda>r. timestamp r = t) (sortedRecords filtered) =
               filter (\<lambda>r. timestamp r = t) filtered)
      \<and> filter (\<lambda>r. date r = None) (sortedRecords filtered) = filter (\<lambda>r. date r = None) filtered
      \<and> (\<forall>i j. i < length (sortedRecords filtered) \<and> j < length (sortedRecords filtered)
             \<and> date (sortedRecords filtered ! i) = None \<and> 0 < timestamp (sortedRecords filtered ! j)
            \<longrightarrow> j < i)
      \<and> (\<forall>i j. i < length (sortedRecords filtered) \<and> j < length (sortedRecords filtered)
             \<and> date (sortedRecords filtered ! i) = None \<and> timestamp (sortedRecords filtered ! j) < 0
            \<longrightarrow> i < j)"
    unfolding sortedRecords_def by (rule js_sort_properties)
  have t0: "date r = None \<longrightarrow> timestamp r = 0"
    by (simp add: timestamp_def)
  have t1: "date r = Some d \<longrightarrow> timestamp r = getTime d"
    by (simp add: timestamp_def)
  have gk: "truthy (project r) \<longrightarrow> group_key r = project r"
    by (simp add: group_key_def js_or_def)
  show ?thesis
    by (rule conjI [OF grp conjI [OF srt conjI [OF t0 conjI [OF t1 gk]]]])
qed

text \<open>
  The three sample records of one project: the record of 2025 first, then the undated
  one, then the one dated before the epoch.
\<close>

theorem sorted_by_date_descending_witness:
  "map_of (groupByProject [undated_example, epoch_eve_example, bob_example]) (Str ''ProjA'')
     = Some [bob_example, undated_example, epoch_eve_example]
   \<and> sorted_wrt (\<lambda>a b. timestamp b \<le> timestamp a)
        [bob_example, undated_example, epoch_eve_example]
   \<and> filter (\<lambda>r. date r = None) [bob_example, undated_example, epoch_eve_example]
     = [undated_example]
   \<and> timestamp undated_example = 0
   \<and> 0 < timestamp bob_example
   \<and> timestamp epoch_eve_example < 0"
proof -
  let ?rs = "[undated_example, epoch_eve_example, bob_example]"
  let ?g = "[bob_example, undated_example, epoch_eve_example]"
  have m: "map_of (groupByProject ?rs) (Str ''ProjA'') = Some ?g"
    by (simp add: group_three_examples)
  note T = sorted_by_date_descending [of ?rs "Str ''ProjA''" ?g "[]" undated_example]
  note G = T [THEN conjunct1, rule_format, OF m]
  from G have b: "sorted_wrt (\<lambda>a b. timestamp b \<le> timestamp a) ?g"
    by (rule conjunct2 [THEN conjunct1])
  from G have "filter (\<lambda>r. date r = None) ?g =
      filter (\<lambda>r. date r = None) (filter (\<lambda>r. group_key r = Str ''ProjA'') ?rs)"
    by (rule conjunct2 [THEN conjunct2, THEN conjunct2, THEN conjunct1])
  then have c: "filter (\<lambda>r. date r = None) ?g = [undated_example]"
    by (simp add: examples_timestamps examples_dates)
  from T [THEN conjunct2, THEN conjunct2, THEN conjunct1, rule_format, OF examples_dates(1)]
  have d: "timestamp undated_example = 0" .
  have e: "0 < timestamp bob_example" by (simp add: examples_timestamps)
  have f: "timestamp epoch_eve_example < 0" by (simp add: examples_timestamps)
  show ?thesis
    by (rule conjI [OF m conjI [OF b conjI [OF c conjI [OF d conjI [OF e f]]]]])
qed

text \<open>
  C1 as stated fails: a record dated before the epoch has a negative time stamp, so the
  undated record, which counts as zero, stands before it, in the group and in the sorted
  view.
\<close>

theorem undated_before_dated_counterexample:
  "date undated_example = None
   \<and> date epoch_eve_example =
       Some \<lparr> getTime = - 86400000, getFullYear = 1969, getMonth = 11, getDate = 31 \<rparr>
   \<and> groupByProject [undated_example, epoch_eve_example] =
       [(Str ''ProjA'', [undated_example, epoch_eve_example])]
   \<and> sortedRecords [undated_example, epoch_eve_example] = [undated_example, epoch_eve_example]"
proof -
  have s: "sortedRecords [undated_example, epoch_eve_example] = [undated_example, epoch_eve_example]"
    by (simp add: sortedRecords_def js_sort_def byDateDesc_def examples_timestamps)
  show ?thesis
    using s group_examples by (simp add: undated_example_def epoch_eve_example_def)
qed

text \<open>
  C2. A row whose project header is absent or holds the empty text is normalized to the
  project \<open>Unspecified Project\<close>; the groups have distinct keys, and the group of
  that key holds the record of every such row: it is, up to order, the list of all
  records with that project.
\<close>

theorem unspecified_project_group:
  "((map_of raw ''Discussed Project Title  (be consistent)'' = None
      \<or> map_of raw ''Discussed Project Title  (be consistent)'' = Some []) \<longrightarrow>
      project (normalizeRecord newDate raw) = Str ''Unspecified Project'')
   \<and> (raw \<in> set rows
      \<and> (map_of raw ''Discussed Project Title  (be consistent)'' = None
          \<or> map_of raw ''Discussed Project Title  (be consistent)'' = Some []) \<longrightarrow>
      (\<exists>g. map_of (groupByProject (map (normalizeRecord newDate) rows)) (Str ''Unspecified Project'')
             = Some g
           \<and> normalizeRecord newDate raw \<in> set g
           \<and> mset g = mset (filter (\<lambda>r. project r = Str ''Unspecified Project'')
                               (map (normalizeRecord newDate) rows))))
   \<and> distinct (map fst (groupByProject (map (normalizeRecord newDate) rows)))"
proof -
  let ?U = "Str ''Unspecified Project''"
  let ?h = "''Discussed Project Title  (be consistent)''"
  let ?rs = "map (normalizeRecord newDate) rows"
  have p: "project (normalizeRecord newDate raw) = ?U"
    if "map_of raw ?h = None \<or> map_of raw ?h = Some []" for raw
    using that by (auto simp: normalizeRecord_fields prop_get_Str js_or_def truthy_def)
  have key: "group_key (normalizeRecord newDate x) = project (normalizeRecord newDate x)" for x
  proof -
    have "\<exists>s. project (normalizeRecord newDate x) = Str s \<and> s \<noteq> []"
      unfolding normalizeRecord_fields by (rule js_or_default) simp
    then show ?thesis by (auto simp: group_key_def js_or_def truthy_def)
  qed
  have same: "filter (\<lambda>r. group_key r = ?U) ?rs = filter (\<lambda>r. project r = ?U) ?rs"
    by (rule filter_cong) (auto simp: key)
  have grp: "\<exists>g. map_of (groupByProject ?rs) ?U = Some g
           \<and> normalizeRecord newDate raw \<in> set g
           \<and> mset g = mset (filter (\<lambda>r. project r = ?U) ?rs)"
    if "raw \<in> set rows" and "map_of raw ?h = None \<or> map_of raw ?h = Some []"
  proof -
    have mem: "normalizeRecord newDate raw \<in> set (filter (\<lambda>r. project r = ?U) ?rs)"
      using that p by auto
    then have "filter (\<lambda>r. project r = ?U) ?rs \<noteq> []"
      by (rule mem_not_Nil)
    then have ne: "filter (\<lambda>r. group_key r = ?U) ?rs \<noteq> []"
      unfolding same .
    have "map_of (groupByProject ?rs) ?U = Some (js_sort byDateDesc (filter (\<lambda>r. project r = ?U) ?rs))"
      using ne by (simp add: map_of_groupByProject same)
    moreover have "normalizeRecord newDate raw \<in> set (js_sort byDateDesc (filter (\<lambda>r. project r = ?U) ?rs))"
      using mem by (simp only: set_js_sort)
    moreover have "mset (js_sort byDateDesc (filter (\<lambda>r. project r = ?U) ?rs))
        = mset (filter (\<lambda>r. project r = ?U) ?rs)"
      by (rule mset_js_sort)
    ultimately show ?thesis by blast
  qed
  show ?thesis
    using p [of raw] grp distinct_groupByProject [of ?rs] by blast
qed

text \<open>
Three rows, two of them without a project.
\<close>

theorem unspecified_project_group_witness:
  "project (normalizeRecord (\<lambda>_. None) [(''Meeting Topic'', ''Kickoff'')]) = Str ''Unspecified Project''
   \<and> (\<exists>g. map_of (groupByProject (map (normalizeRecord (\<lambda>_. None))
              [[(''Discussed Project Title  (be consistent)'', ''ProjA'')],
               [(''Meeting Topic'', ''Kickoff'')],
               [(''Discussed Project Title  (be consistent)'', [])]]))
            (Str ''Unspecified Project'') = Some g
         \<and> normalizeRecord (\<lambda>_. None) [(''Meeting Topic'', ''Kickoff'')] \<in> set g)"
proof -
  let ?raw = "[(''Meeting Topic'', ''Kickoff'')]"
  let ?rows = "[[(''Discussed Project Title  (be consistent)'', ''ProjA'')],
               [(''Meeting Topic'', ''Kickoff'')],
               [(''Discussed Project Title  (be consistent)'', [])]]"
  have a: "map_of ?raw ''Discussed Project Title  (be consistent)'' = None" by simp
  have b: "?raw \<in> set ?rows" by simp
  note T = unspecified_project_group [of ?raw "\<lambda>_. None" ?rows]
  from T a have c: "project (normalizeRecord (\<lambda>_. None) ?raw) = Str ''Unspecified Project''"
    by blast
  from T a b have d: "\<exists>g. map_of (groupByProject (map (normalizeRecord (\<lambda>_. None)) ?rows))
            (Str ''Unspecified Project'') = Some g
         \<and> normalizeRecord (\<lambda>_. None) ?raw \<in> set g"
    by blast
  from c d show ?thesis by (rule conjI)
qed

text \<open>
  C3 (amended). The column of the action items is found in two steps. A row that has the
  configured header \<open>Action Points\<close> gives that cell. A row that does not have it is
  scanned: the first header, in the order of the keys, in which the pattern matches (the
  word action, white space or none, then one of point, item, to do, todo in their
  spellings, in any case) gives its cell; if there is none the result is undefined. The
  action items are the split of the cell found. In particular a row without the
  configured header, with a header \<open>Action Items (for next week)\<close> and no matching
  header before it, has the split of that cell as its action items.
\<close>

theorem action_items_resolution:
  "(map_of raw ''Action Points'' = Some v \<longrightarrow>
      pickColumn raw (column ''action_points'') action_regex = Str v)
   \<and> (map_of raw ''Action Points'' = None \<longrightarrow>
      pickColumn raw (column ''action_points'') action_regex =
        (case find (regex_test action_regex) (Object_keys raw) of
           None \<Rightarrow> Undefined | Some h \<Rightarrow> prop_get raw (Str h)))
   \<and> (regex_test action_regex h \<longleftrightarrow>
        (\<exists>pre w post. h = pre @ w @ post \<and> w \<in> rx_lang action_regex))
   \<and> action_items (normalizeRecord newDate raw) =
        splitList (js_or (pickColumn raw (column ''action_points'') action_regex) (Str []))
   \<and> (map_of raw ''Action Points'' = None
        \<and> raw = before @ (''Action Items (for next week)'', x) # after
        \<and> (\<forall>k \<in> set (Object_keys before). \<not> regex_test action_regex k) \<longrightarrow>
      action_items (normalizeRecord newDate raw) = splitList (Str x))"
proof -
  have t1: "map_of raw ''Action Points'' = Some v \<longrightarrow>
      pickColumn raw (column ''action_points'') action_regex = Str v"
    by (simp add: column_simps pickColumn_present)
  have t2: "map_of raw ''Action Points'' = None \<longrightarrow>
      pickColumn raw (column ''action_points'') action_regex =
        (case find (regex_test action_regex) (Object_keys raw) of
           None \<Rightarrow> Undefined | Some h \<Rightarrow> prop_get raw (Str h))"
    by (simp add: column_simps pickColumn_absent Object_keys_def)
  have t3: "regex_test action_regex h \<longleftrightarrow>
        (\<exists>pre w post. h = pre @ w @ post \<and> w \<in> rx_lang action_regex)"
    by (rule regex_test_iff)
  have t4: "action_items (normalizeRecord newDate raw) =
        splitList (js_or (pickColumn raw (column ''action_points'') action_regex) (Str []))"
    by (simp add: normalizeRecord_fields column_simps)
  have t5: "map_of raw ''Action Points'' = None
        \<and> raw = before @ (''Action Items (for next week)'', x) # after
        \<and> (\<forall>k \<in> set (Object_keys before). \<not> regex_test action_regex k) \<longrightarrow>
      action_items (normalizeRecord newDate raw) = splitList (Str x)"
  proof (intro impI, elim conjE)
    assume absent: "map_of raw ''Action Points'' = None"
      and raw: "raw = before @ (''Action Items (for next week)'', x) # after"
      and first: "\<forall>k \<in> set (Object_keys before). \<not> regex_test action_regex k"
    have keys: "Object_keys raw = Object_keys before @ ''Action Items (for next week)'' # Object_keys after"
      by (simp add: raw Object_keys_def)
    have f: "find (regex_test action_regex) (Object_keys raw) = Some ''Action Items (for next week)''"
      unfolding keys using first regex_action_items_next_week by (rule find_append_first)
    have "''Action Items (for next week)'' \<notin> set (Object_keys before)"
      using first regex_action_items_next_week by blast
    then have "''Action Items (for next week)'' \<notin> fst ` set before"
      by (simp add: Object_keys_def)
    then have m: "map_of raw ''Action Items (for next week)'' = Some x"
      unfolding raw by (rule map_of_append_first)
    from t2 absent have "pickColumn raw (column ''action_points'') action_regex =
        (case find (regex_test action_regex) (Object_keys raw) of
           None \<Rightarrow> Undefined | Some h \<Rightarrow> prop_get raw (Str h))"
      by blast
    also have "\<dots> = prop_get raw (Str ''Action Items (for next week)'')"
      by (simp only: f option.case)
    also have "\<dots> = Str x"
      by (simp only: prop_get_Str m option.case)
    finally have "pickColumn raw (column ''action_points'') action_regex = Str x" .
    then show "action_items (normalizeRecord newDate raw) = splitList (Str x)"
      using t4 by (simp add: splitList_or_empty)
  qed
  show ?thesis
    by (intro conjI) (fact t1 t2 t3 t4 t5)+
qed

text \<open>
A row in which the header comes first among the matching ones.
\<close>

theorem action_items_resolution_witness:
  "action_items (normalizeRecord (\<lambda>_. None)
      [(''Meeting Topic'', ''Kickoff''), (''Action Items (for next week)'', ''Do X; Do Y''),
       (''Action To-Dos'', ''Other'')]) = [''Do X'', ''Do Y'']"
proof -
  let ?before = "[(''Meeting Topic'', ''Kickoff'')]"
  let ?after = "[(''Action To-Dos'', ''Other'')]"
  let ?raw = "?before @ (''Action Items (for next week)'', ''Do X; Do Y'') # ?after"
  have a: "map_of ?raw ''Action Points'' = None" by simp
  have b: "\<forall>k \<in> set (Object_keys ?before). \<not> regex_test action_regex k"
    by (simp add: Object_keys_def action_regex_def canonicalize_def is_space_def)
  have c: "splitList (Str ''Do X; Do Y'') = [''Do X'', ''Do Y'']"
    by (simp add: splitList_def truthy_def js_String_def is_delim_def trim_def is_space_def)
  have "action_items (normalizeRecord (\<lambda>_. None) ?raw) = splitList (Str ''Do X; Do Y'')"
    using action_items_resolution [of ?raw _ _ "\<lambda>_. None" ?before "''Do X; Do Y''" ?after,
        THEN conjunct2, THEN conjunct2, THEN conjunct2, THEN conjunct2] a b
    by blast
  with c show ?thesis by simp
qed

text \<open>
  C3 as stated fails: the row has no header \<open>Action Points\<close> and has the header
  \<open>Action Items (for next week)\<close>, but the pattern matches the earlier header
  \<open>Action Item Owner\<close>, and the action items are taken from that cell.
\<close>

theorem action_items_first_match_counterexample:
  "map_of [(''Action Item Owner'', ''Bob''), (''Action Items (for next week)'', ''Do X; Do Y'')]
      ''Action Points'' = None
   \<and> map_of [(''Action Item Owner'', ''Bob''), (''Action Items (for next week)'', ''Do X; Do Y'')]
      ''Action Items (for next week)'' = Some ''Do X; Do Y''
   \<and> splitList (Str ''Do X; Do Y'') = [''Do X'', ''Do Y'']
   \<and> action_items (normalizeRecord (\<lambda>_. None)
        [(''Action Item Owner'', ''Bob''), (''Action Items (for next week)'', ''Do X; Do Y'')])
      = [''Bob'']"
proof -
  have c: "splitList (Str ''Do X; Do Y'') = [''Do X'', ''Do Y'']"
    by (simp add: splitList_def truthy_def js_String_def is_delim_def trim_def is_space_def)
  have r: "regex_test action_regex ''Action Item Owner''"
    by (simp add: action_regex_def canonicalize_def is_space_def)
  have p: "pickColumn [(''Action Item Owner'', ''Bob''), (''Action Items (for next week)'', ''Do X; Do Y'')]
      (Str ''Action Points'') action_regex = Str ''Bob''"
    using r by (simp add: pickColumn_absent prop_get_Str)
  have s: "splitList (Str ''Bob'') = [''Bob'']"
    by (simp add: splitList_def truthy_def js_String_def is_delim_def trim_def is_space_def)
  have d: "action_items (normalizeRecord (\<lambda>_. None)
        [(''Action Item Owner'', ''Bob''), (''Action Items (for next week)'', ''Do X; Do Y'')])
      = [''Bob'']"
    using p s by (simp add: normalizeRecord_fields js_or_def truthy_def)
  show ?thesis using c d by simp
qed

text \<open>
  C4. A record passes the filter exactly when it passes the filter without the two date
  bounds and neither bound drops it; a bound drops a record exactly when the bound is
  active, the record has a date, the bound's text is a valid date, and the record's date
  is strictly before the from-bound (strictly after the to-bound). So a record without
  date fares as it does without the bounds: whatever they are, they never exclude it.
\<close>

theorem date_bounds_spare_undated:
  "(keep newDate f r \<longleftrightarrow>
      keep newDate (f\<lparr>dateFrom := [], dateTo := []\<rparr>) r
      \<and> \<not> before_bound (bound_of newDate (dateFrom f)) (date r)
      \<and> \<not> after_bound (bound_of newDate (dateTo f)) (date r))
   \<and> (before_bound (bound_of newDate (dateFrom f)) (date r) \<longleftrightarrow>
        dateFrom f \<noteq> []
        \<and> (\<exists>d b. date r = Some d \<and> newDate (dateFrom f) = Some b \<and> getTime d < getTime b))
   \<and> (after_bound (bound_of newDate (dateTo f)) (date r) \<longleftrightarrow>
        dateTo f \<noteq> []
        \<and> (\<exists>d b. date r = Some d \<and> newDate (dateTo f) = Some b \<and> getTime b < getTime d))
   \<and> (date r = None \<longrightarrow>
        keep newDate f r = keep newDate (f\<lparr>dateFrom := [], dateTo := []\<rparr>) r)
   \<and> (date r = None \<and> r \<in> set (filteredRecords newDate (f\<lparr>dateFrom := [], dateTo := []\<rparr>) records)
        \<longrightarrow> r \<in> set (filteredRecords newDate f records))"
proof -
  have a: "keep newDate f r \<longleftrightarrow>
      keep newDate (f\<lparr>dateFrom := [], dateTo := []\<rparr>) r
      \<and> \<not> before_bound (bound_of newDate (dateFrom f)) (date r)
      \<and> \<not> after_bound (bound_of newDate (dateTo f)) (date r)"
    by (rule keep_without_bounds)
  have b: "before_bound (bound_of newDate (dateFrom f)) (date r) \<longleftrightarrow>
        dateFrom f \<noteq> []
        \<and> (\<exists>d b. date r = Some d \<and> newDate (dateFrom f) = Some b \<and> getTime d < getTime b)"
    by (rule before_bound_iff)
  have c: "after_bound (bound_of newDate (dateTo f)) (date r) \<longleftrightarrow>
        dateTo f \<noteq> []
        \<and> (\<exists>d b. date r = Some d \<and> newDate (dateTo f) = Some b \<and> getTime b < getTime d)"
    by (rule after_bound_iff)
  have d: "date r = None \<longrightarrow>
        keep newDate f r = keep newDate (f\<lparr>dateFrom := [], dateTo := []\<rparr>) r"
    using a b c by auto
  have e: "date r = None \<and> r \<in> set (filteredRecords newDate (f\<lparr>dateFrom := [], dateTo := []\<rparr>) records)
        \<longrightarrow> r \<in> set (filteredRecords newDate f records)"
    using d by (auto simp: filteredRecords_def)
  show ?thesis
    by (rule conjI [OF a conjI [OF b conjI [OF c conjI [OF d e]]]])
qed

text \<open>
  Bounds that drop the dated sample record keep the undated one.
\<close>

theorem date_bounds_spare_undated_witness:
  "date undated_example = None
   \<and> keep demo_newDate bounds_example undated_example
   \<and> \<not> keep demo_newDate bounds_example epoch_eve_example
   \<and> filteredRecords demo_newDate bounds_example [undated_example, epoch_eve_example]
       = [undated_example]"
proof -
  have u: "date undated_example = None" by (simp add: undated_example_def)
  have k0: "keep demo_newDate (bounds_example\<lparr>dateFrom := [], dateTo := []\<rparr>) undated_example"
    by (simp add: keep_def Let_def bounds_example_def bound_of_def before_bound_def
        after_bound_def trim_examples toLowerCase_def)
  note T = date_bounds_spare_undated [of demo_newDate bounds_example undated_example]
  from T [THEN conjunct2, THEN conjunct2, THEN conjunct2, THEN conjunct1, rule_format, OF u] k0
  have k: "keep demo_newDate bounds_example undated_example" by simp
  have b: "before_bound (bound_of demo_newDate (dateFrom bounds_example)) (date epoch_eve_example)"
    by (simp add: bounds_example_def epoch_eve_example_def bound_of_def before_bound_def
        demo_newDate_def)
  from date_bounds_spare_undated [of demo_newDate bounds_example epoch_eve_example, THEN conjunct1] b
  have n: "\<not> keep demo_newDate bounds_example epoch_eve_example" by blast
  from k n have fl: "filteredRecords demo_newDate bounds_example [undated_example, epoch_eve_example]
       = [undated_example]"
    by (simp add: filteredRecords_def)
  show ?thesis
    by (rule conjI [OF u conjI [OF k conjI [OF n fl]]])
qed

text \<open>
  C5 (amended). The filter returns, in their order, exactly the records that satisfy all
  of: the project is the selected one unless the selector is ALL; the student is the
  selected one unless the selector is ALL; no active date bound drops the record; and the
  query, trimmed of white space at both ends and put in lower case, is empty or occurs in
  the lower-case text of student, project, topic, joined subtopics and inputs.
\<close>

theorem filter_conjunction:
  "filteredRecords newDate f records =
     filter (\<lambda>r.
       (projectFilter f = ''ALL'' \<or> project r = Str (projectFilter f))
       \<and> (studentFilter f = ''ALL'' \<or> student r = Str (studentFilter f))
       \<and> \<not> (dateFrom f \<noteq> []
              \<and> (\<exists>d b. date r = Some d \<and> newDate (dateFrom f) = Some b \<and> getTime d < getTime b))
       \<and> \<not> (dateTo f \<noteq> []
              \<and> (\<exists>d b. date r = Some d \<and> newDate (dateTo f) = Some b \<and> getTime b < getTime d))
       \<and> (trim (q f) = []
            \<or> sublist (toLowerCase (trim (q f))) (toLowerCase (search_text r)))) records
   \<and> filteredRecords newDate f records = filter (matches_trimmed newDate f) records
   \<and> (r \<in> set (filteredRecords newDate f records) \<longleftrightarrow>
        r \<in> set records \<and> matches_trimmed newDate f r)"
proof -
  have a: "filteredRecords newDate f records = filter (matches_trimmed newDate f) records"
    by (simp add: filteredRecords_def keep_matches_trimmed [abs_def])
  then have b: "r \<in> set (filteredRecords newDate f records) \<longleftrightarrow>
        r \<in> set records \<and> matches_trimmed newDate f r"
    by simp
  from a have c: "filteredRecords newDate f records =
     filter (\<lambda>r.
       (projectFilter f = ''ALL'' \<or> project r = Str (projectFilter f))
       \<and> (studentFilter f = ''ALL'' \<or> student r = Str (studentFilter f))
       \<and> \<not> (dateFrom f \<noteq> []
              \<and> (\<exists>d b. date r = Some d \<and> newDate (dateFrom f) = Some b \<and> getTime d < getTime b))
       \<and> \<not> (dateTo f \<noteq> []
              \<and> (\<exists>d b. date r = Some d \<and> newDate (dateTo f) = Some b \<and> getTime b < getTime d))
       \<and> (trim (q f) = []
            \<or> sublist (toLowerCase (trim (q f))) (toLowerCase (search_text r)))) records"
    unfolding matches_trimmed_def [abs_def] .
  show ?thesis
    by (rule conjI [OF c conjI [OF a b]])
qed

text \<open>
  Two records, the student selector set to Bob and a query with spaces around it.
\<close>

theorem filter_conjunction_witness:
  "filteredRecords (\<lambda>_. None) student_query_example [undated_example, bob_example] = [bob_example]"
proof -
  have m1: "\<not> matches_trimmed (\<lambda>_. None) student_query_example undated_example"
    by (simp add: matches_trimmed_def student_query_example_def undated_example_def)
  have m2: "matches_trimmed (\<lambda>_. None) student_query_example bob_example"
    unfolding matches_trimmed_def
    by (simp add: student_query_example_def trim_examples lower_examples search_text_examples
        sublist_examples) (simp add: bob_example_def)
  show ?thesis
    using filter_conjunction [of "\<lambda>_. None" student_query_example "[undated_example, bob_example]",
        THEN conjunct2, THEN conjunct1] m1 m2
    by simp
qed

text \<open>
  C5 as stated fails: the query is trimmed before it is searched. A query with a leading
  space does not occur in the text of the record, but its trimmed form does, and the
  record is kept.
\<close>

theorem padded_query_counterexample:
  "filteredRecords (\<lambda>_. None) padded_query_example [undated_example] = [undated_example]
   \<and> \<not> matches_as_specified (\<lambda>_. None) padded_query_example undated_example"
proof -
  have k: "keep (\<lambda>_. None) padded_query_example undated_example"
    unfolding keep_matches_trimmed matches_trimmed_def
    by (simp add: padded_query_example_def trim_examples lower_examples search_text_examples
        sublist_examples)
  have n: "\<not> matches_as_specified (\<lambda>_. None) padded_query_example undated_example"
    unfolding matches_as_specified_def
    by (simp add: padded_query_example_def lower_examples search_text_examples sublist_examples)
  from k n show ?thesis by (simp add: filteredRecords_def)
qed

text \<open>
  C6. \<open>splitList\<close> splits its text at each semicolon and each newline and at nothing
  else (a comma is no delimiter): the pieces hold no delimiter, there is one more piece
  than delimiters, and the pieces with the delimiters between them are the text again. Each
  piece is trimmed, the empty ones are left out, and the order is the one of the text. So
  every element of the result is non-empty and has no white space at either end, a text
  without delimiter gives its trimmed self (or nothing), and the text \<open>A; B;\<close>, a
  newline, \<open>C\<close> gives \<open>A\<close>, \<open>B\<close>, \<open>C\<close>.
\<close>

theorem splitList_spec:
  "splitList (Str ''A; B;\<newline>C'') = [''A'', ''B'', ''C'']
   \<and> splitList Undefined = []
   \<and> splitList (Str s) = filter (\<lambda>w. w \<noteq> []) (map trim (split_on is_delim s))
   \<and> unsplit (split_on is_delim s) (filter is_delim s) = s
   \<and> length (split_on is_delim s) = Suc (length (filter is_delim s))
   \<and> (\<forall>w \<in> set (split_on is_delim s). \<forall>c \<in> set w. c \<noteq> CHR '';'' \<and> c \<noteq> CHR 0x0A)
   \<and> (\<forall>c. is_delim c \<longleftrightarrow> c = CHR '';'' \<or> c = CHR 0x0A)
   \<and> ((\<forall>c \<in> set s. c \<noteq> CHR '';'' \<and> c \<noteq> CHR 0x0A) \<longrightarrow>
        splitList (Str s) = (if trim s = [] then [] else [trim s]))
   \<and> (\<forall>x \<in> set (splitList (Str s)). x \<noteq> [] \<and> trim x = x
          \<and> \<not> is_space (hd x) \<and> \<not> is_space (last x))"
proof -
  have c1: "splitList (Str ''A; B;\<newline>C'') = [''A'', ''B'', ''C'']"
    by (simp add: splitList_def truthy_def js_String_def is_delim_def trim_def is_space_def)
  have c2: "splitList Undefined = []"
    by (simp add: splitList_def truthy_def)
  have c6: "\<forall>w \<in> set (split_on is_delim s). \<forall>c \<in> set w. c \<noteq> CHR '';'' \<and> c \<noteq> CHR 0x0A"
    using split_on_no_delim [of _ is_delim s] by (auto simp: is_delim_def)
  have c8: "(\<forall>c \<in> set s. c \<noteq> CHR '';'' \<and> c \<noteq> CHR 0x0A) \<longrightarrow>
        splitList (Str s) = (if trim s = [] then [] else [trim s])"
  proof
    assume "\<forall>c \<in> set s. c \<noteq> CHR '';'' \<and> c \<noteq> CHR 0x0A"
    then have "split_on is_delim s = [s]"
      by (intro split_on_no_delims) (simp add: is_delim_def)
    then show "splitList (Str s) = (if trim s = [] then [] else [trim s])"
      by (simp add: splitList_Str)
  qed
  have c9: "\<forall>x \<in> set (splitList (Str s)). x \<noteq> [] \<and> trim x = x
          \<and> \<not> is_space (hd x) \<and> \<not> is_space (last x)"
  proof
    fix x assume "x \<in> set (splitList (Str s))"
    then have x: "x \<noteq> [] \<and> trim x = x" by (rule splitList_elems)
    then show "x \<noteq> [] \<and> trim x = x \<and> \<not> is_space (hd x) \<and> \<not> is_space (last x)"
      using trim_ends [of x] by simp
  qed
  have c3: "splitList (Str s) = filter (\<lambda>w. w \<noteq> []) (map trim (split_on is_delim s))"
    by (rule splitList_Str)
  have c4: "unsplit (split_on is_delim s) (filter is_delim s) = s"
    by (rule unsplit_split_on)
  have c5: "length (split_on is_delim s) = Suc (length (filter is_delim s))"
    by (rule length_split_on)
  have c7: "\<forall>c. is_delim c \<longleftrightarrow> c = CHR '';'' \<or> c = CHR 0x0A"
    by (simp add: is_delim_def)
  show ?thesis
    by (intro conjI) (fact c1 c2 c3 c4 c5 c6 c7 c8 c9)+
qed

text \<open>
The same at a text with commas, an empty piece and a trailing delimiter.
\<close>

theorem splitList_spec_witness:
  "splitList (Str '' a, b ;; c d\<newline>'') = [''a, b'', ''c d'']
   \<and> unsplit (split_on is_delim '' a, b ;; c d\<newline>'') '';;\<newline>'' = '' a, b ;; c d\<newline>''
   \<and> length (split_on is_delim '' a, b ;; c d\<newline>'') = 4
   \<and> splitList (Str '' x, y '') = [''x, y'']"
proof -
  note A = splitList_spec [of "'' a, b ;; c d\<newline>''"]
  note B = splitList_spec [of "'' x, y ''"]
  have e: "filter is_delim '' a, b ;; c d\<newline>'' = '';;\<newline>''"
    by (simp add: is_delim_def)
  have n: "\<forall>c \<in> set '' x, y ''. c \<noteq> CHR '';'' \<and> c \<noteq> CHR 0x0A" by simp
  have t: "trim '' x, y '' = ''x, y''" by (simp add: trim_def is_space_def)
  have w1: "splitList (Str '' a, b ;; c d\<newline>'') = [''a, b'', ''c d'']"
    using A [THEN conjunct2, THEN conjunct2, THEN conjunct1]
    by (simp add: is_delim_def trim_def is_space_def)
  have w2: "unsplit (split_on is_delim '' a, b ;; c d\<newline>'') '';;\<newline>'' = '' a, b ;; c d\<newline>''"
    using A [THEN conjunct2, THEN conjunct2, THEN conjunct2, THEN conjunct1] e
    by (simp del: split_on.simps unsplit.simps)
  have w3: "length (split_on is_delim '' a, b ;; c d\<newline>'') = 4"
    using A [THEN conjunct2, THEN conjunct2, THEN conjunct2, THEN conjunct2, THEN conjunct1] e
    by (simp del: split_on.simps)
  have w4: "splitList (Str '' x, y '') = [''x, y'']"
    using B [THEN conjunct2, THEN conjunct2, THEN conjunct2, THEN conjunct2, THEN conjunct2,
             THEN conjunct2, THEN conjunct2, THEN conjunct1] n t
    by (simp del: split_on.simps)
  show ?thesis
    by (intro conjI) (fact w1 w2 w3 w4)+
qed

text \<open>
  C7. In the record of any row, project, topic and inputs are strings, and not empty
  ones; the subtopics and the action items are lists (by their type) whose elements are
  non-empty and have no white space at either end; the date is what the date text parses
  to, the date text being the date cell or else the timestamp cell; the label is the
  year, month and day of the date, the month and day padded to two digits, when there is
  a date, and the date text itself (empty when there is none) when there is not.
\<close>

theorem normalizeRecord_invariants:
  "(\<exists>s. project (normalizeRecord newDate raw) = Str s \<and> s \<noteq> [])
   \<and> (\<exists>s. topic (normalizeRecord newDate raw) = Str s \<and> s \<noteq> [])
   \<and> (\<exists>s. my_inputs (normalizeRecord newDate raw) = Str s \<and> s \<noteq> [])
   \<and> (\<forall>x \<in> set (subtopics (normalizeRecord newDate raw)).
         x \<noteq> [] \<and> trim x = x \<and> \<not> is_space (hd x) \<and> \<not> is_space (last x))
   \<and> (\<forall>x \<in> set (action_items (normalizeRecord newDate raw)).
         x \<noteq> [] \<and> trim x = x \<and> \<not> is_space (hd x) \<and> \<not> is_space (last x))
   \<and> date (normalizeRecord newDate raw) =
        parseDateLoose newDate
          (js_or (prop_get raw (Str ''Date of Meeting'')) (prop_get raw (Str ''Timestamp'')))
   \<and> (\<forall>d. date (normalizeRecord newDate raw) = Some d \<longrightarrow>
         date_label (normalizeRecord newDate raw) =
           show_int (getFullYear d) @ ''-'' @ padStart 2 CHR ''0'' (show_nat (getMonth d + 1))
             @ ''-'' @ padStart 2 CHR ''0'' (show_nat (getDate d)))
   \<and> (date (normalizeRecord newDate raw) = None \<longrightarrow>
         date_label (normalizeRecord newDate raw) =
           (case js_or (prop_get raw (Str ''Date of Meeting'')) (prop_get raw (Str ''Timestamp'')) of
              Undefined \<Rightarrow> [] | Str s \<Rightarrow> s))"
proof -
  let ?r = "normalizeRecord newDate raw"
  let ?dateRaw = "js_or (prop_get raw (Str ''Date of Meeting'')) (prop_get raw (Str ''Timestamp''))"
  have i1: "\<exists>s. project ?r = Str s \<and> s \<noteq> []"
    unfolding normalizeRecord_fields by (rule js_or_default) simp
  have i2: "\<exists>s. topic ?r = Str s \<and> s \<noteq> []"
    unfolding normalizeRecord_fields by (rule js_or_default) simp
  have i3: "\<exists>s. my_inputs ?r = Str s \<and> s \<noteq> []"
    unfolding normalizeRecord_fields by (rule js_or_default) simp
  have i4: "\<forall>x \<in> set (subtopics ?r).
         x \<noteq> [] \<and> trim x = x \<and> \<not> is_space (hd x) \<and> \<not> is_space (last x)"
    unfolding normalizeRecord_fields using splitList_clean by blast
  have i5: "\<forall>x \<in> set (action_items ?r).
         x \<noteq> [] \<and> trim x = x \<and> \<not> is_space (hd x) \<and> \<not> is_space (last x)"
    unfolding normalizeRecord_fields using splitList_clean by blast
  have i6: "date ?r = parseDateLoose newDate ?dateRaw"
    by (simp add: normalizeRecord_fields)
  have i7: "\<forall>d. date ?r = Some d \<longrightarrow>
         date_label ?r =
           show_int (getFullYear d) @ ''-'' @ padStart 2 CHR ''0'' (show_nat (getMonth d + 1))
             @ ''-'' @ padStart 2 CHR ''0'' (show_nat (getDate d))"
    by (simp add: normalizeRecord_fields Let_def toYMD_Some)
  have i8: "date ?r = None \<longrightarrow>
         date_label ?r = (case ?dateRaw of Undefined \<Rightarrow> [] | Str s \<Rightarrow> s)"
    by (cases ?dateRaw)
      (simp_all add: normalizeRecord_fields Let_def js_or_def truthy_def js_String_def)
  show ?thesis
    by (intro conjI) (fact i1 i2 i3 i4 i5 i6 i7 i8)+
qed

text \<open>
  A row whose date text the sample constructor reads, and the same row under a
  constructor that reads nothing.
\<close>

theorem normalizeRecord_invariants_witness:
  "date (normalizeRecord demo_newDate demo_row) =
     Some \<lparr>getTime = 1736467200000, getFullYear = 2025, getMonth = 0, getDate = 10\<rparr>
   \<and> date_label (normalizeRecord demo_newDate demo_row) = ''2025-01-10''
   \<and> date (normalizeRecord (\<lambda>_. None) demo_row) = None
   \<and> date_label (normalizeRecord (\<lambda>_. None) demo_row) = ''2025-01-10''
   \<and> subtopics (normalizeRecord demo_newDate demo_row) = [''Scope'', ''Timeline'']"
proof -
  note A = normalizeRecord_invariants [of demo_newDate demo_row]
  note B = normalizeRecord_invariants [of "\<lambda>_. None" demo_row]
  have raw: "js_or (prop_get demo_row (Str ''Date of Meeting'')) (prop_get demo_row (Str ''Timestamp''))
      = Str ''2025-01-10''"
    by (simp add: demo_row_def prop_get_Str js_or_def truthy_def)
  have w1: "date (normalizeRecord demo_newDate demo_row) =
     Some \<lparr>getTime = 1736467200000, getFullYear = 2025, getMonth = 0, getDate = 10\<rparr>"
    using A [THEN conjunct2, THEN conjunct2, THEN conjunct2, THEN conjunct2, THEN conjunct2,
             THEN conjunct1]
    by (simp add: raw parseDateLoose_def truthy_def js_String_def demo_newDate_def)
  have w2: "date_label (normalizeRecord demo_newDate demo_row) = ''2025-01-10''"
    using A [THEN conjunct2, THEN conjunct2, THEN conjunct2, THEN conjunct2, THEN conjunct2,
             THEN conjunct2, THEN conjunct1, rule_format, OF w1]
    by (simp add: show_int_def padStart_def digit_char_def)
  have w3: "date (normalizeRecord (\<lambda>_. None) demo_row) = None"
    using B [THEN conjunct2, THEN conjunct2, THEN conjunct2, THEN conjunct2, THEN conjunct2,
             THEN conjunct1]
    by (simp add: parseDateLoose_def)
  have w4: "date_label (normalizeRecord (\<lambda>_. None) demo_row) = ''2025-01-10''"
    using B [THEN conjunct2, THEN conjunct2, THEN conjunct2, THEN conjunct2, THEN conjunct2,
             THEN conjunct2, THEN conjunct2, rule_format, OF w3]
    by (simp add: raw)
  have w5: "subtopics (normalizeRecord demo_newDate demo_row) = [''Scope'', ''Timeline'']"
    by (simp add: normalizeRecord_fields demo_row_def prop_get_Str js_or_def truthy_def
        splitList_def js_String_def is_delim_def trim_def is_space_def)
  show ?thesis
    by (intro conjI) (fact w1 w2 w3 w4 w5)+
qed

text \<open>
  C8. Read over the heap, grouping leaves every record object and every array that was
  there before as it was, the input array among them: the arrays of the groups are new
  ones, and read as lists of records they are the groups of the input list. Likewise the
  sort after the filter sorts a new copy and leaves the filtered array as it was.
\<close>

theorem grouping_and_sorting_leave_input:
  "objects (fst (groupByProject_heap h records)) = objects h
   \<and> (\<forall>a < length (arrays h). arrays (fst (groupByProject_heap h records)) ! a = arrays h ! a)
   \<and> (\<forall>a \<in> snd ` set (snd (groupByProject_heap h records)).
         length (arrays h) \<le> a \<and> a < length (arrays (fst (groupByProject_heap h records))))
   \<and> (records < length (arrays h) \<longrightarrow>
         view (fst (groupByProject_heap h records)) (snd (groupByProject_heap h records))
           = groupByProject (map (deref h) (arrays h ! records)))
   \<and> objects (fst (sortedRecords_heap h filtered)) = objects h
   \<and> (\<forall>a < length (arrays h). arrays (fst (sortedRecords_heap h filtered)) ! a = arrays h ! a)
   \<and> snd (sortedRecords_heap h filtered) = length (arrays h)
   \<and> map (deref (fst (sortedRecords_heap h filtered)))
         (arrays (fst (sortedRecords_heap h filtered)) ! snd (sortedRecords_heap h filtered))
       = sortedRecords (map (deref h) (arrays h ! filtered))"
proof -
  have g: "fresh_groups h (groupByProject_heap h records)"
    by (rule groupByProject_heap_fresh)
  then have g1: "objects (fst (groupByProject_heap h records)) = objects h"
    and g2: "\<forall>a < length (arrays h). arrays (fst (groupByProject_heap h records)) ! a = arrays h ! a"
    and g3: "\<forall>a \<in> snd ` set (snd (groupByProject_heap h records)).
         length (arrays h) \<le> a \<and> a < length (arrays (fst (groupByProject_heap h records)))"
    by (simp_all add: fresh_groups_def preserves_def)
  have g4: "records < length (arrays h) \<longrightarrow>
         view (fst (groupByProject_heap h records)) (snd (groupByProject_heap h records))
           = groupByProject (map (deref h) (arrays h ! records))"
    by (simp add: groupByProject_heap_refines)
  note s = sortedRecords_heap_fresh [of h filtered]
  from s have s1: "objects (fst (sortedRecords_heap h filtered)) = objects h"
    and s2: "\<forall>a < length (arrays h). arrays (fst (sortedRecords_heap h filtered)) ! a = arrays h ! a"
    and s3: "snd (sortedRecords_heap h filtered) = length (arrays h)"
    by (simp_all add: preserves_def)
  have s4: "map (deref (fst (sortedRecords_heap h filtered)))
         (arrays (fst (sortedRecords_heap h filtered)) ! snd (sortedRecords_heap h filtered))
       = sortedRecords (map (deref h) (arrays h ! filtered))"
    by (rule sortedRecords_heap_refines)
  show ?thesis
    by (rule conjI [OF g1 conjI [OF g2 conjI [OF g3 conjI [OF g4
          conjI [OF s1 conjI [OF s2 conjI [OF s3 s4]]]]]]])
qed

text \<open>
  The sample heap: the sorted copy is in another order than the input array, which stays
  as it was.
\<close>

theorem grouping_and_sorting_leave_input_witness:
  "arrays (fst (sortedRecords_heap heap_example 0)) = [[0, 1, 2], [2, 1, 0]]
   \<and> arrays (fst (groupByProject_heap heap_example 0)) ! 0 = [0, 1, 2]
   \<and> objects (fst (groupByProject_heap heap_example 0)) =
       [epoch_eve_example, undated_example, bob_example]"
proof -
  have d: "deref (heap_example\<lparr>arrays := xs\<rparr>) = deref heap_example" for xs
    by (simp add: deref_def fun_eq_iff)
  have a0: "arrays heap_example = [[0, 1, 2]]" by (simp add: heap_example_def)
  have w1: "arrays (fst (sortedRecords_heap heap_example 0)) = [[0, 1, 2], [2, 1, 0]]"
    by (simp add: sortedRecords_heap_def array_copy_def array_sort_def d js_sort_def
        byDateDesc_def heap_example_timestamps a0)
  note T = grouping_and_sorting_leave_input [of heap_example 0 0]
  have l: "0 < length (arrays heap_example)" by (simp add: heap_example_def)
  from T [THEN conjunct2, THEN conjunct1, rule_format, OF l]
  have w2: "arrays (fst (groupByProject_heap heap_example 0)) ! 0 = [0, 1, 2]"
    by (simp add: heap_example_def)
  from T [THEN conjunct1]
  have w3: "objects (fst (groupByProject_heap heap_example 0)) =
       [epoch_eve_example, undated_example, bob_example]"
    by (simp add: heap_example_def)
  show ?thesis
    by (rule conjI [OF w1 conjI [OF w2 w3]])
qed

text \<open>
  C9. The column map has no entry \<open>meeting_id\<close>, so the record's identifier is read
  from the key \<open>undefined\<close>: for a row without a header spelled so it is the empty
  text, whatever the row holds.
\<close>

theorem meeting_id_empty:
  "column ''meeting_id'' = Undefined \<and>
   (''undefined'' \<notin> set (Object_keys raw) \<longrightarrow> meeting_id (normalizeRecord newDate raw) = Str [])"
proof -
  have "meeting_id (normalizeRecord newDate raw) = Str []" if "''undefined'' \<notin> set (Object_keys raw)"
  proof -
    from that have "map_of raw ''undefined'' = None"
      by (simp add: Object_keys_def map_of_eq_None_iff)
    then show ?thesis
      by (simp add: normalizeRecord_fields prop_get_Undefined js_or_def truthy_def)
  qed
  then show ?thesis by (simp add: column_simps)
qed

text \<open>
A row with an identifier column under two likely names.
\<close>

theorem meeting_id_empty_witness:
  "''undefined'' \<notin> set (Object_keys [(''Meeting ID'', ''M-42''), (''meeting_id'', ''M-42''), (''Meeting Topic'', ''Kickoff'')])
   \<and> meeting_id (normalizeRecord (\<lambda>_. None)
        [(''Meeting ID'', ''M-42''), (''meeting_id'', ''M-42''), (''Meeting Topic'', ''Kickoff'')]) = Str []"
  using meeting_id_empty [of "[(''Meeting ID'', ''M-42''), (''meeting_id'', ''M-42''), (''Meeting Topic'', ''Kickoff'')]" "\<lambda>_. None"]
  by (simp add: Object_keys_def)

text \<open>
  C10. A row that has the header \<open>Action Points\<close> gives that cell, whatever else it
  holds; when the cell is empty the action items are the empty list, and no other header
  is looked at.
\<close>

theorem action_points_empty_no_fallback:
  "(map_of raw ''Action Points'' = Some v \<longrightarrow>
      pickColumn raw (column ''action_points'') action_regex = Str v)
   \<and> (map_of raw ''Action Points'' = Some [] \<longrightarrow>
      action_items (normalizeRecord newDate raw) = [])"
proof -
  have a: "pickColumn raw (column ''action_points'') action_regex = Str v"
    if "map_of raw ''Action Points'' = Some v" for v
    using that by (simp add: column_simps pickColumn_present)
  have b: "action_items (normalizeRecord newDate raw) = []"
    if "map_of raw ''Action Points'' = Some []"
    using a [OF that]
    by (simp add: normalizeRecord_fields column_simps js_or_def truthy_def splitList_def)
  from a b show ?thesis by blast
qed

text \<open>
  A row with an empty \<open>Action Points\<close> cell and a filled \<open>Action Items\<close>
  cell, which the pattern matches.
\<close>

theorem action_points_empty_no_fallback_witness:
  "map_of [(''Action Items'', ''Send draft; Book room''), (''Action Points'', [])] ''Action Points'' = Some []
   \<and> regex_test action_regex ''Action Items''
   \<and> pickColumn [(''Action Items'', ''Send draft; Book room''), (''Action Points'', [])]
        (column ''action_points'') action_regex = Str []
   \<and> action_items (normalizeRecord (\<lambda>_. None)
        [(''Action Items'', ''Send draft; Book room''), (''Action Points'', [])]) = []"
proof -
  have r: "regex_test action_regex ''Action Items''"
    by (simp add: action_regex_def canonicalize_def is_space_def)
  show ?thesis
    using action_points_empty_no_fallback
      [of "[(''Action Items'', ''Send draft; Book room''), (''Action Points'', [])]" "[]" "\<lambda>_. None"] r
    by simp
qed

end
